theory Spec2Isabelle
  imports Complex_Main "HOL-Library.Word"
begin

unbundle bit_operations_syntax

section \<open>Conventions of the embedding\<close>

text \<open>
  The theory embeds the drawing routines of \<^verbatim>\<open>fgcugl.cpp\<close>: \<^verbatim>\<open>setColor\<close>,
  \<^verbatim>\<open>drawQuad\<close>, \<^verbatim>\<open>drawPoint\<close>, \<^verbatim>\<open>drawLine\<close>, \<^verbatim>\<open>drawCircle\<close> and \<^verbatim>\<open>drawText\<close>.

  \<^item> \<^verbatim>\<open>unsigned int\<close> is \<open>32 word\<close>, \<^verbatim>\<open>GLubyte\<close> is \<open>8 word\<close>.
  \<^item> \<^verbatim>\<open>int\<close> is \<open>int\<close> with the 32-bit range written out: an addition or a
    multiplication that leaves the range is the error \<open>SignedOverflow\<close>.
  \<^item> A \<^verbatim>\<open>float\<close> or \<^verbatim>\<open>GLfloat\<close> is the \<open>real\<close> it denotes, and a division by zero is
    the error \<open>DivisionByZero\<close> instead of an infinity. The result of an operation on
    floats is rounded to single precision by \<open>f32\<close> (binary32, round to nearest, ties to
    even, with subnormals; the overflow to an infinity is not modelled, so statements
    about rounded values bound the magnitudes). \<^verbatim>\<open>drawCircle\<close> rounds every operation
    of lines 279, 289 and 290; \<^verbatim>\<open>cos\<close> and \<^verbatim>\<open>sin\<close> of a float are the float overloads of
    \<^verbatim>\<open>cmath\<close>, the rounded values of the real functions, and \<^verbatim>\<open>M_PI\<close> is \<open>pi\<close>. Where
    \<^verbatim>\<open>cmath\<close> declares only the \<^verbatim>\<open>double\<close> functions in the global namespace, the product
    with \<open>radius\<close> and the sum with \<open>x\<close> are computed in double precision and rounded
    once, at the store; with double precision taken as exact, the error bound of a
    coordinate covers that evaluation too (\<open>coord_error_wide\<close>).
  \<^item> The quotients of \<^verbatim>\<open>setColor\<close>, the sums of \<^verbatim>\<open>drawQuad\<close> and the loops of
    \<^verbatim>\<open>drawText\<close> are written without rounding. A quotient \<open>k / 255\<close> moves by less than
    \<open>2^-23\<close> when rounded. Sums and differences of integers of magnitude at most \<open>2^24\<close>
    are exact in single precision, and on such coordinates the loops of \<^verbatim>\<open>drawText\<close>
    compute in the program what they compute here; beyond that range \<^verbatim>\<open>xpos += size\<close>
    rounds and \<^verbatim>\<open>xs++\<close> can stop advancing. The cursor of \<^verbatim>\<open>drawText\<close> in single
    precision is \<open>drawText_xpos_f32\<close>.
  \<^item> The loop over \<^verbatim>\<open>text[c]\<close> is a recursion over the characters not yet drawn; the
    counter \<open>c\<close> is kept for its overflow.
  \<^item> Undefined behaviour and C++ exceptions are error results: every routine that can
    reach one returns \<open>error + gl_state\<close>.
  \<^item> OpenGL is a state record; what \<^verbatim>\<open>glDrawArrays\<close> rasterises is appended to a log
    of draw calls, each with the vertices it read and the colour current at the call.
  \<^item> \<^verbatim>\<open>fgcugl.h\<close> is not among the sources. What the routines take from it (the glyph
    table \<^verbatim>\<open>CHARACTERS\<close> and the default arguments of \<^verbatim>\<open>drawPoint\<close>) is a parameter,
    the record \<open>fgcugl_h\<close>.
\<close>

section \<open>The OpenGL state\<close>

type_synonym GLfloat = real
type_synonym rgb = "real \<times> real \<times> real"

datatype GLmode = GL_POINTS | GL_LINES | GL_QUADS | GL_TRIANGLE_FAN

record draw_call =
  dc_mode :: GLmode
  dc_vertices :: "(GLfloat \<times> GLfloat) list"
  dc_color :: rgb

text \<open>An attribute group saved by \<^verbatim>\<open>glPushAttrib\<close>: the point attributes (size,
  smoothing) or the line attributes (width, smoothing).\<close>

datatype attrib_group = POINT_BIT GLfloat bool | LINE_BIT GLfloat bool

record gl_state =
  gl_color :: rgb
  gl_point_size :: GLfloat
  gl_point_smooth :: bool
  gl_line_width :: GLfloat
  gl_line_smooth :: bool
  gl_attrib_stack :: "attrib_group list"
  gl_vertex_array :: bool
  gl_vertex_pointer :: "GLfloat list"
  gl_drawn :: "draw_call list"

definition glColor3f :: "GLfloat \<Rightarrow> GLfloat \<Rightarrow> GLfloat \<Rightarrow> gl_state \<Rightarrow> gl_state" where
  "glColor3f red green blue s = s\<lparr>gl_color := (red, green, blue)\<rparr>"

text \<open>\<^verbatim>\<open>glPushAttrib(GL_POINT_BIT)\<close> and \<^verbatim>\<open>glPushAttrib(GL_LINE_BIT)\<close> save the point
  or the line attributes, \<^verbatim>\<open>glPopAttrib\<close> restores the group saved last (an empty
  stack leaves the state as it is).\<close>

definition glPushAttrib_POINT_BIT :: "gl_state \<Rightarrow> gl_state" where
  "glPushAttrib_POINT_BIT s =
     s\<lparr>gl_attrib_stack := POINT_BIT (gl_point_size s) (gl_point_smooth s) # gl_attrib_stack s\<rparr>"

definition glPushAttrib_LINE_BIT :: "gl_state \<Rightarrow> gl_state" where
  "glPushAttrib_LINE_BIT s =
     s\<lparr>gl_attrib_stack := LINE_BIT (gl_line_width s) (gl_line_smooth s) # gl_attrib_stack s\<rparr>"

definition glPopAttrib :: "gl_state \<Rightarrow> gl_state" where
  "glPopAttrib s =
     (case gl_attrib_stack s of
        [] \<Rightarrow> s
      | POINT_BIT psize psmooth # stack \<Rightarrow>
          s\<lparr>gl_point_size := psize, gl_point_smooth := psmooth, gl_attrib_stack := stack\<rparr>
      | LINE_BIT lwidth lsmooth # stack \<Rightarrow>
          s\<lparr>gl_line_width := lwidth, gl_line_smooth := lsmooth, gl_attrib_stack := stack\<rparr>)"

definition glEnable_POINT_SMOOTH :: "gl_state \<Rightarrow> gl_state" where
  "glEnable_POINT_SMOOTH s = s\<lparr>gl_point_smooth := True\<rparr>"

definition glDisable_POINT_SMOOTH :: "gl_state \<Rightarrow> gl_state" where
  "glDisable_POINT_SMOOTH s = s\<lparr>gl_point_smooth := False\<rparr>"

definition glEnable_LINE_SMOOTH :: "gl_state \<Rightarrow> gl_state" where
  "glEnable_LINE_SMOOTH s = s\<lparr>gl_line_smooth := True\<rparr>"

definition glDisable_LINE_SMOOTH :: "gl_state \<Rightarrow> gl_state" where
  "glDisable_LINE_SMOOTH s = s\<lparr>gl_line_smooth := False\<rparr>"

definition glEnableClientState_VERTEX_ARRAY :: "gl_state \<Rightarrow> gl_state" where
  "glEnableClientState_VERTEX_ARRAY s = s\<lparr>gl_vertex_array := True\<rparr>"

definition glDisableClientState_VERTEX_ARRAY :: "gl_state \<Rightarrow> gl_state" where
  "glDisableClientState_VERTEX_ARRAY s = s\<lparr>gl_vertex_array := False\<rparr>"

text \<open>A point size or line width that is not positive is \<^verbatim>\<open>GL_INVALID_VALUE\<close>: the
  state stays.\<close>

definition glPointSize :: "GLfloat \<Rightarrow> gl_state \<Rightarrow> gl_state" where
  "glPointSize psize s = (if 0 < psize then s\<lparr>gl_point_size := psize\<rparr> else s)"

definition glLineWidth :: "GLfloat \<Rightarrow> gl_state \<Rightarrow> gl_state" where
  "glLineWidth lwidth s = (if 0 < lwidth then s\<lparr>gl_line_width := lwidth\<rparr> else s)"

text \<open>\<^verbatim>\<open>glVertexPointer(2, GL_FLOAT, 0, p)\<close>: the array holds two floats per vertex,
  tightly packed.\<close>

definition glVertexPointer_2f :: "GLfloat list \<Rightarrow> gl_state \<Rightarrow> gl_state" where
  "glVertexPointer_2f p s = s\<lparr>gl_vertex_pointer := p\<rparr>"

fun pairs :: "GLfloat list \<Rightarrow> (GLfloat \<times> GLfloat) list" where
  "pairs (a # b # rest) = (a, b) # pairs rest"
| "pairs _ = []"

text \<open>\<^verbatim>\<open>glDrawArrays(mode, first, count)\<close> reads \<open>count\<close> vertices of the current
  vertex array from index \<open>first\<close> and draws them in the current colour. With the
  vertex array disabled, or a negative count, nothing is drawn.\<close>

definition glDrawArrays :: "GLmode \<Rightarrow> int \<Rightarrow> int \<Rightarrow> gl_state \<Rightarrow> gl_state" where
  "glDrawArrays m first count s =
     (if gl_vertex_array s \<and> 0 \<le> first \<and> 0 \<le> count then
        s\<lparr>gl_drawn := gl_drawn s @
            [\<lparr>dc_mode = m,
              dc_vertices = take (nat count) (drop (nat first) (pairs (gl_vertex_pointer s))),
              dc_color = gl_color s\<rparr>]\<rparr>
      else s)"

section \<open>Errors, machine integers, arrays\<close>

datatype error = SignedOverflow | BadArrayNewLength | OutOfBounds | DivisionByZero

definition INT_MAX :: int where
  "INT_MAX = 2147483647"

definition INT_MIN :: int where
  "INT_MIN = - 2147483648"

definition int_add :: "int \<Rightarrow> int \<Rightarrow> error + int" where
  "int_add a b = (if INT_MIN \<le> a + b \<and> a + b \<le> INT_MAX then Inr (a + b) else Inl SignedOverflow)"

definition int_mul :: "int \<Rightarrow> int \<Rightarrow> error + int" where
  "int_mul a b = (if INT_MIN \<le> a * b \<and> a * b \<le> INT_MAX then Inr (a * b) else Inl SignedOverflow)"

text \<open>\<^verbatim>\<open>new GLfloat[n]\<close>: a negative length throws \<^verbatim>\<open>std::bad_array_new_length\<close>.
  The cells are uninitialised in C++; the routines write every cell before it is
  read, so the model fills them with 0. Memory is unbounded.\<close>

definition new_GLfloat :: "int \<Rightarrow> error + GLfloat list" where
  "new_GLfloat n = (if n < 0 then Inl BadArrayNewLength else Inr (replicate (nat n) 0))"

definition store :: "'a list \<Rightarrow> int \<Rightarrow> 'a \<Rightarrow> error + 'a list" where
  "store a i v = (if 0 \<le> i \<and> i < int (length a) then Inr (a[nat i := v]) else Inl OutOfBounds)"

definition load :: "'a list \<Rightarrow> int \<Rightarrow> error + 'a" where
  "load a i = (if 0 \<le> i \<and> i < int (length a) then Inr (a ! nat i) else Inl OutOfBounds)"

section \<open>Rounding to single precision\<close>

text \<open>Round to the nearest integer, ties to the even one.\<close>

definition rne :: "real \<Rightarrow> int" where
  "rne q =
     (let n = \<lfloor>q\<rfloor>; d = q - of_int n
      in if d < 1 / 2 then n else if 1 / 2 < d then n + 1 else if even n then n else n + 1)"

text \<open>The exponent of a binary32 number near \<open>x\<close>: that of the binade of \<open>x\<close>, and
  \<open>-126\<close> for the subnormal numbers. Neighbouring floats are one unit in the last
  place apart, \<open>2 ^ (e - 23)\<close>. \<open>f32 x\<close> is the multiple of that unit nearest to \<open>x\<close>.\<close>

definition f32_exponent :: "real \<Rightarrow> int" where
  "f32_exponent x = max \<lfloor>log 2 \<bar>x\<bar>\<rfloor> (- 126)"

definition f32_ulp :: "real \<Rightarrow> real" where
  "f32_ulp x = 2 powi (f32_exponent x - 23)"

definition f32 :: "real \<Rightarrow> real" where
  "f32 x = (if x = 0 then 0 else of_int (rne (x / f32_ulp x)) * f32_ulp x)"

section \<open>What the routines take from fgcugl.h\<close>

record fgcugl_h =
  CHARACTERS :: "8 word list list"
  drawPoint_color :: "32 word"
  drawPoint_smooth :: bool

section \<open>setColor\<close>

definition setColor :: "32 word \<Rightarrow> gl_state \<Rightarrow> gl_state" where
  "setColor color s =
     (let red = real (unat (drop_bit 16 color AND 0xFF)) / 255;
          green = real (unat (drop_bit 8 color AND 0xFF)) / 255;
          blue = real (unat (color AND 0xFF)) / 255
      in glColor3f red green blue s)"

section \<open>drawQuad\<close>

definition drawQuad :: "GLfloat \<Rightarrow> GLfloat \<Rightarrow> GLfloat \<Rightarrow> GLfloat \<Rightarrow> 32 word \<Rightarrow> gl_state \<Rightarrow> gl_state" where
  "drawQuad x y width height color s =
     (let vertices =
            [x, y,
             x + width, y,
             x + width, y + height,
             x, y + height];
          s = glEnableClientState_VERTEX_ARRAY s;
          s = glVertexPointer_2f vertices s;
          s = setColor color s;
          s = glDrawArrays GL_QUADS 0 4 s
      in glDisableClientState_VERTEX_ARRAY s)"

section \<open>drawPoint\<close>

definition drawPoint :: "GLfloat \<Rightarrow> GLfloat \<Rightarrow> GLfloat \<Rightarrow> 32 word \<Rightarrow> bool \<Rightarrow> gl_state \<Rightarrow> gl_state" where
  "drawPoint x y psize color smooth s =
     (let pointVertex = [x, y];
          s = glPushAttrib_POINT_BIT s;
          s = (if smooth then glEnable_POINT_SMOOTH s else s);
          s = glEnableClientState_VERTEX_ARRAY s;
          s = glPointSize psize s;
          s = glVertexPointer_2f pointVertex s;
          s = setColor color s;
          s = glDrawArrays GL_POINTS 0 1 s;
          s = glDisableClientState_VERTEX_ARRAY s;
          s = (if smooth then glDisable_POINT_SMOOTH s else s)
      in glPopAttrib s)"

section \<open>drawLine\<close>

definition drawLine ::
  "GLfloat \<Rightarrow> GLfloat \<Rightarrow> GLfloat \<Rightarrow> GLfloat \<Rightarrow> GLfloat \<Rightarrow> 32 word \<Rightarrow> bool \<Rightarrow> gl_state \<Rightarrow> gl_state" where
  "drawLine x1 y1 x2 y2 width color smooth s =
     (let lineVertices = [x1, y1, x2, y2];
          s = glPushAttrib_LINE_BIT s;
          s = (if smooth then glEnable_LINE_SMOOTH s else s);
          s = glLineWidth width s;
          s = glEnableClientState_VERTEX_ARRAY s;
          s = glVertexPointer_2f lineVertices s;
          s = setColor color s;
          s = glDrawArrays GL_LINES 0 2 s;
          s = glDisableClientState_VERTEX_ARRAY s;
          s = (if smooth then glDisable_LINE_SMOOTH s else s)
      in glPopAttrib s)"

section \<open>drawCircle\<close>

text \<open>Line 279: \<^verbatim>\<open>2.0f * M_PI\<close> stored in a \<^verbatim>\<open>GLfloat\<close>, the float
  \<open>13176795 / 2^21 = 6.2831854820251465\<close> (\<open>doublePi_eq\<close>).\<close>

definition doublePi :: GLfloat where
  "doublePi = f32 (2 * pi)"

text \<open>The loop of lines 287 to 291, from \<open>i\<close> on. The counter stays below
  \<open>numberOfVertices\<close>, so \<open>i++\<close> cannot overflow. In \<^verbatim>\<open>i * doublePi / sides\<close> the two
  \<^verbatim>\<open>int\<close>s are converted to \<^verbatim>\<open>float\<close>, and the product and the quotient are rounded; so
  are the cosine, its product with \<open>radius\<close> and the sum with \<open>x\<close>.\<close>

function drawCircle_rim ::
  "int \<Rightarrow> int \<Rightarrow> GLfloat \<Rightarrow> GLfloat \<Rightarrow> GLfloat \<Rightarrow> int \<Rightarrow> GLfloat list \<Rightarrow> GLfloat list
     \<Rightarrow> error + GLfloat list \<times> GLfloat list" where
  "drawCircle_rim i numberOfVertices x y radius sides circleVerticesX circleVerticesY =
     (if i < numberOfVertices then
        (if sides = 0 then Inl DivisionByZero
         else
           (case store circleVerticesX i
                   (f32 (x + f32 (radius *
                      f32 (cos (f32 (f32 (f32 (of_int i) * doublePi) / f32 (of_int sides))))))) of
              Inl e \<Rightarrow> Inl e
            | Inr vx \<Rightarrow>
           (case store circleVerticesY i
                   (f32 (y + f32 (radius *
                      f32 (sin (f32 (f32 (f32 (of_int i) * doublePi) / f32 (of_int sides))))))) of
              Inl e \<Rightarrow> Inl e
            | Inr vy \<Rightarrow> drawCircle_rim (i + 1) numberOfVertices x y radius sides vx vy)))
      else Inr (circleVerticesX, circleVerticesY))"
  by pat_completeness auto
termination
  by (relation "measure (\<lambda>(i, n, x, y, radius, sides, vx, vy). nat (n - i))") auto

declare drawCircle_rim.simps [simp del]

text \<open>The loop of lines 295 to 299, from \<open>i\<close> on. \<open>i * 2 + 1\<close> stays below
  \<open>numberOfVertices * 2\<close>, which was computed without overflow before the loop.\<close>

function drawCircle_pack ::
  "int \<Rightarrow> int \<Rightarrow> GLfloat list \<Rightarrow> GLfloat list \<Rightarrow> GLfloat list \<Rightarrow> error + GLfloat list" where
  "drawCircle_pack i numberOfVertices circleVerticesX circleVerticesY allCircleVertices =
     (if i < numberOfVertices then
        (case load circleVerticesX i of
           Inl e \<Rightarrow> Inl e
         | Inr vx \<Rightarrow>
        (case store allCircleVertices (i * 2) vx of
           Inl e \<Rightarrow> Inl e
         | Inr a \<Rightarrow>
        (case load circleVerticesY i of
           Inl e \<Rightarrow> Inl e
         | Inr vy \<Rightarrow>
        (case store a ((i * 2) + 1) vy of
           Inl e \<Rightarrow> Inl e
         | Inr a' \<Rightarrow>
             drawCircle_pack (i + 1) numberOfVertices circleVerticesX circleVerticesY a'))))
      else Inr allCircleVertices)"
  by pat_completeness auto
termination
  by (relation "measure (\<lambda>(i, n, vx, vy, a). nat (n - i))") auto

declare drawCircle_pack.simps [simp del]

text \<open>Lines 277 to 299: the vertex array handed to OpenGL, with the vertex count.\<close>

definition drawCircle_vertices ::
  "GLfloat \<Rightarrow> GLfloat \<Rightarrow> GLfloat \<Rightarrow> int \<Rightarrow> error + int \<times> GLfloat list" where
  "drawCircle_vertices x y radius sides =
     (case int_add sides 2 of
        Inl e \<Rightarrow> Inl e
      | Inr numberOfVertices \<Rightarrow>
     (case new_GLfloat numberOfVertices of
        Inl e \<Rightarrow> Inl e
      | Inr circleVerticesX \<Rightarrow>
     (case new_GLfloat numberOfVertices of
        Inl e \<Rightarrow> Inl e
      | Inr circleVerticesY \<Rightarrow>
     (case store circleVerticesX 0 x of
        Inl e \<Rightarrow> Inl e
      | Inr circleVerticesX \<Rightarrow>
     (case store circleVerticesY 0 y of
        Inl e \<Rightarrow> Inl e
      | Inr circleVerticesY \<Rightarrow>
     (case drawCircle_rim 1 numberOfVertices x y radius sides circleVerticesX circleVerticesY of
        Inl e \<Rightarrow> Inl e
      | Inr (circleVerticesX, circleVerticesY) \<Rightarrow>
     (case int_mul numberOfVertices 2 of
        Inl e \<Rightarrow> Inl e
      | Inr len \<Rightarrow>
     (case new_GLfloat len of
        Inl e \<Rightarrow> Inl e
      | Inr allCircleVertices \<Rightarrow>
     (case drawCircle_pack 0 numberOfVertices circleVerticesX circleVerticesY allCircleVertices of
        Inl e \<Rightarrow> Inl e
      | Inr allCircleVertices \<Rightarrow> Inr (numberOfVertices, allCircleVertices))))))))))"

definition drawCircle ::
  "GLfloat \<Rightarrow> GLfloat \<Rightarrow> GLfloat \<Rightarrow> 32 word \<Rightarrow> int \<Rightarrow> gl_state \<Rightarrow> error + gl_state" where
  "drawCircle x y radius color sides s =
     (case drawCircle_vertices x y radius sides of
        Inl e \<Rightarrow> Inl e
      | Inr (numberOfVertices, allCircleVertices) \<Rightarrow>
          (let s = glEnableClientState_VERTEX_ARRAY s;
               s = glVertexPointer_2f allCircleVertices s;
               s = setColor color s;
               s = glDrawArrays GL_TRIANGLE_FAN 0 numberOfVertices s
           in Inr (glDisableClientState_VERTEX_ARRAY s)))"

section \<open>drawText\<close>

text \<open>\<^verbatim>\<open>text[c]\<close> is a \<^verbatim>\<open>char\<close>, signed on the usual targets: its value as an
  \<^verbatim>\<open>int\<close>.\<close>

definition char_code :: "char \<Rightarrow> int" where
  "char_code ch = (let k = of_char ch in if k < 128 then k else k - 256)"

text \<open>\<^verbatim>\<open>CHARACTERS[k][i]\<close>, with both indices checked.\<close>

definition glyph_byte :: "fgcugl_h \<Rightarrow> int \<Rightarrow> int \<Rightarrow> error + 8 word" where
  "glyph_byte h k i =
     (case load (CHARACTERS h) k of
        Inl e \<Rightarrow> Inl e
      | Inr glyph \<Rightarrow> load glyph i)"

text \<open>Lines 342 to 345: \<^verbatim>\<open>drawPoint(xs, ys, 1)\<close> leaves colour and smoothing to the
  default arguments.\<close>

function drawText_xs_loop ::
  "fgcugl_h \<Rightarrow> GLfloat \<Rightarrow> GLfloat \<Rightarrow> GLfloat \<Rightarrow> gl_state \<Rightarrow> gl_state" where
  "drawText_xs_loop h xs bound ys s =
     (if xs < bound then
        drawText_xs_loop h (xs + 1) bound ys
          (drawPoint xs ys 1 (drawPoint_color h) (drawPoint_smooth h) s)
      else s)"
  by pat_completeness auto
termination
proof (relation "measure (\<lambda>(h, xs, bound, ys, s). nat \<lceil>bound - xs\<rceil>)")
  show "wf (measure (\<lambda>(h, xs, bound, ys, s). nat \<lceil>bound - xs\<rceil>))"
    by simp
next
  fix h :: fgcugl_h and xs bound ys :: real and s :: gl_state
  assume "xs < bound"
  then have "\<lceil>bound - (xs + 1)\<rceil> < \<lceil>bound - xs\<rceil>" and "0 < \<lceil>bound - xs\<rceil>"
    by linarith+
  then show "((h, xs + 1, bound, ys,
               drawPoint xs ys 1 (drawPoint_color h) (drawPoint_smooth h) s),
              (h, xs, bound, ys, s))
             \<in> measure (\<lambda>(h, xs, bound, ys, s). nat \<lceil>bound - xs\<rceil>)"
    by simp
qed

declare drawText_xs_loop.simps [simp del]

text \<open>Lines 340 to 346.\<close>

function drawText_ys_loop ::
  "fgcugl_h \<Rightarrow> GLfloat \<Rightarrow> GLfloat \<Rightarrow> GLfloat \<Rightarrow> int \<Rightarrow> gl_state \<Rightarrow> gl_state" where
  "drawText_ys_loop h ys bound xpos sz s =
     (if ys < bound then
        drawText_ys_loop h (ys + 1) bound xpos sz
          (drawText_xs_loop h xpos (xpos + of_int sz) ys s)
      else s)"
  by pat_completeness auto
termination
proof (relation "measure (\<lambda>(h, ys, bound, xpos, sz, s). nat \<lceil>bound - ys\<rceil>)")
  show "wf (measure (\<lambda>(h, ys, bound, xpos, sz, s). nat \<lceil>bound - ys\<rceil>))"
    by simp
next
  fix h :: fgcugl_h and ys bound xpos :: real and sz :: int and s :: gl_state
  assume "ys < bound"
  then have "\<lceil>bound - (ys + 1)\<rceil> < \<lceil>bound - ys\<rceil>" and "0 < \<lceil>bound - ys\<rceil>"
    by linarith+
  then show "((h, ys + 1, bound, xpos, sz,
               drawText_xs_loop h xpos (xpos + of_int sz) ys s),
              (h, ys, bound, xpos, sz, s))
             \<in> measure (\<lambda>(h, ys, bound, xpos, sz, s). nat \<lceil>bound - ys\<rceil>)"
    by simp
qed

declare drawText_ys_loop.simps [simp del]

text \<open>Lines 336 to 350, from bit \<open>b\<close> on; the result is \<open>xpos\<close> after the loop and
  the state.\<close>

function drawText_bit_loop ::
  "fgcugl_h \<Rightarrow> int \<Rightarrow> 8 word \<Rightarrow> GLfloat \<Rightarrow> GLfloat \<Rightarrow> int \<Rightarrow> gl_state \<Rightarrow> GLfloat \<times> gl_state" where
  "drawText_bit_loop h b byte xpos ypos sz s =
     (if b < 8 then
        drawText_bit_loop h (b + 1) (push_bit 1 byte) (xpos + of_int sz) ypos sz
          (if byte AND 0x80 \<noteq> 0 then drawText_ys_loop h ypos (ypos + of_int sz) xpos sz s
           else s)
      else (xpos, s))"
  by pat_completeness auto
termination
  by (relation "measure (\<lambda>(h, b, byte, xpos, ypos, sz, s). nat (8 - b))") auto

declare drawText_bit_loop.simps [simp del]

text \<open>Lines 332 to 352, from row \<open>i\<close> on; the result is \<open>xpos\<close> and \<open>ypos\<close> after
  the loop and the state.\<close>

function drawText_row_loop ::
  "fgcugl_h \<Rightarrow> char \<Rightarrow> int \<Rightarrow> GLfloat \<Rightarrow> GLfloat \<Rightarrow> GLfloat \<Rightarrow> int \<Rightarrow> gl_state
     \<Rightarrow> error + GLfloat \<times> GLfloat \<times> gl_state" where
  "drawText_row_loop h ch i x xpos ypos sz s =
     (if i < 8 then
        (case glyph_byte h (char_code ch - 32) i of
           Inl e \<Rightarrow> Inl e
         | Inr byte \<Rightarrow>
             (case drawText_bit_loop h 0 byte x ypos sz s of
                (xpos', s') \<Rightarrow>
                  drawText_row_loop h ch (i + 1) x xpos' (ypos - of_int sz) sz s'))
      else Inr (xpos, ypos, s))"
  by pat_completeness auto
termination
  by (relation "measure (\<lambda>(h, ch, i, x, xpos, ypos, sz, s). nat (8 - i))") auto

declare drawText_row_loop.simps [simp del]

text \<open>Lines 329 to 354: the string from its character number \<open>c\<close> on, \<open>str\<close> being
  the characters not yet drawn. \<open>c++\<close> overflows after character \<open>INT_MAX\<close>.
  \<open>xpos\<close> is the local of that name, not initialised before the first row.\<close>

fun drawText_char_loop ::
  "fgcugl_h \<Rightarrow> int \<Rightarrow> string \<Rightarrow> GLfloat \<Rightarrow> GLfloat \<Rightarrow> GLfloat \<Rightarrow> int \<Rightarrow> gl_state
     \<Rightarrow> error + gl_state" where
  "drawText_char_loop h c [] x y xpos sz s = Inr s"
| "drawText_char_loop h c (ch # str) x y xpos sz s =
     (case drawText_row_loop h ch 0 x xpos (y + 8) sz s of
        Inl e \<Rightarrow> Inl e
      | Inr (xpos', ypos', s') \<Rightarrow>
          (case int_add c 1 of
             Inl e \<Rightarrow> Inl e
           | Inr c' \<Rightarrow> drawText_char_loop h c' str xpos' y xpos' sz s'))"

definition drawText ::
  "fgcugl_h \<Rightarrow> GLfloat \<Rightarrow> GLfloat \<Rightarrow> string \<Rightarrow> int \<Rightarrow> 32 word \<Rightarrow> gl_state \<Rightarrow> error + gl_state" where
  "drawText h x y str sz color s = drawText_char_loop h 0 str x y 0 sz (setColor color s)"

text \<open>The cursor in single precision. Line 334 sets \<^verbatim>\<open>xpos = x\<close> and line 349 runs
  \<^verbatim>\<open>xpos += size\<close> once for each of the 8 bits of a row: \<open>size\<close> is converted to
  \<^verbatim>\<open>float\<close> and the sum is rounded. This is \<open>xpos\<close> after \<open>b\<close> more runs of line 349;
  line 353 makes the value after 8 runs the \<open>x\<close> of the next character.\<close>

fun drawText_xpos_f32 :: "GLfloat \<Rightarrow> int \<Rightarrow> nat \<Rightarrow> GLfloat" where
  "drawText_xpos_f32 xpos sz 0 = xpos"
| "drawText_xpos_f32 xpos sz (Suc b) = drawText_xpos_f32 (f32 (xpos + f32 (of_int sz))) sz b"

section \<open>The spec's colour decoding\<close>

text \<open>The decoding in the words of the specification: red is bits 16 to 23, green
  bits 8 to 15, blue bits 0 to 7 of the packed colour, each divided by 255.\<close>

definition spec_decode :: "32 word \<Rightarrow> rgb" where
  "spec_decode c =
     (real (unat c div 2 ^ 16 mod 2 ^ 8) / 255,
      real (unat c div 2 ^ 8 mod 2 ^ 8) / 255,
      real (unat c mod 2 ^ 8) / 255)"

section \<open>What a call draws\<close>

text \<open>The draw calls a routine adds to the log when started in state \<open>s\<close>, or its
  error.\<close>

definition emitted :: "(gl_state \<Rightarrow> error + gl_state) \<Rightarrow> gl_state \<Rightarrow> error + draw_call list" where
  "emitted f s =
     (case f s of
        Inl e \<Rightarrow> Inl e
      | Inr s' \<Rightarrow> Inr (drop (length (gl_drawn s)) (gl_drawn s')))"

text \<open>The call \<^verbatim>\<open>drawPoint\<close> logs for the point \<open>p\<close> in colour \<open>col\<close>.\<close>

definition point_call :: "rgb \<Rightarrow> GLfloat \<times> GLfloat \<Rightarrow> draw_call" where
  "point_call col p = \<lparr>dc_mode = GL_POINTS, dc_vertices = [p], dc_color = col\<rparr>"

section \<open>Closed forms of what the loops compute\<close>

text \<open>The rim vertex in the words of the specification: for index \<open>i\<close> the angle is
  \<open>i * 2\<pi> / sides\<close> and the vertex is \<open>(x + radius * cos angle, y + radius * sin angle)\<close>.\<close>

definition spec_rim_vertex :: "GLfloat \<Rightarrow> GLfloat \<Rightarrow> GLfloat \<Rightarrow> int \<Rightarrow> nat \<Rightarrow> GLfloat \<times> GLfloat" where
  "spec_rim_vertex x y radius sides i =
     (x + radius * cos (real i * (2 * pi) / of_int sides),
      y + radius * sin (real i * (2 * pi) / of_int sides))"

text \<open>The rim vertex the loop of lines 287 to 291 stores for index \<open>i\<close>: the angle
  \<^verbatim>\<open>i * doublePi / sides\<close> and the two coordinates, every operation rounded.\<close>

definition rim_angle :: "int \<Rightarrow> nat \<Rightarrow> GLfloat" where
  "rim_angle sides i = f32 (f32 (f32 (real i) * doublePi) / f32 (of_int sides))"

definition rim_vertex :: "GLfloat \<Rightarrow> GLfloat \<Rightarrow> GLfloat \<Rightarrow> int \<Rightarrow> nat \<Rightarrow> GLfloat \<times> GLfloat" where
  "rim_vertex x y radius sides i =
     (f32 (x + f32 (radius * f32 (cos (rim_angle sides i)))),
      f32 (y + f32 (radius * f32 (sin (rim_angle sides i)))))"

text \<open>The array \<^verbatim>\<open>allCircleVertices\<close> in closed form: the centre, then the rim vertices
  1 to \<open>sides + 1\<close>, two floats each.\<close>

definition circle_array :: "GLfloat \<Rightarrow> GLfloat \<Rightarrow> GLfloat \<Rightarrow> int \<Rightarrow> GLfloat list" where
  "circle_array x y radius sides =
     concat (map (\<lambda>(a, b). [a, b])
       ((x, y) # map (rim_vertex x y radius sides) [1..<nat (sides + 2)]))"

text \<open>The call a point of \<^verbatim>\<open>drawText\<close> logs: \<^verbatim>\<open>drawPoint\<close> sets its default colour.\<close>

abbreviation text_call :: "fgcugl_h \<Rightarrow> GLfloat \<times> GLfloat \<Rightarrow> draw_call" where
  "text_call h \<equiv> point_call (spec_decode (drawPoint_color h))"

text \<open>The points of lines 340 to 346 in closed form, in the order drawn: \<open>sz\<close> rows of
  \<open>sz\<close> points from the corner \<open>(xpos, ypos)\<close>.\<close>

definition block_points :: "GLfloat \<Rightarrow> GLfloat \<Rightarrow> int \<Rightarrow> (GLfloat \<times> GLfloat) list" where
  "block_points xpos ypos sz =
     concat (map (\<lambda>i. map (\<lambda>j. (xpos + real j, ypos + real i)) [0..<nat sz]) [0..<nat sz])"

text \<open>The points of one glyph row: a block for every set bit, bit 7 first.\<close>

definition row_points :: "8 word \<Rightarrow> GLfloat \<Rightarrow> GLfloat \<Rightarrow> int \<Rightarrow> (GLfloat \<times> GLfloat) list" where
  "row_points byte x ypos sz =
     concat (map (\<lambda>b. if bit byte (7 - b) then block_points (x + real b * of_int sz) ypos sz else [])
       [0..<8])"

text \<open>The points of one glyph: row \<open>r\<close> starts at \<open>ypos = y + 8 - r * sz\<close>.\<close>

definition glyph_points :: "8 word list \<Rightarrow> GLfloat \<Rightarrow> GLfloat \<Rightarrow> int \<Rightarrow> (GLfloat \<times> GLfloat) list" where
  "glyph_points glyph x y sz =
     concat (map (\<lambda>r. row_points (glyph ! r) x (y + 8 - real r * of_int sz) sz) [0..<8])"

text \<open>The accesses \<^verbatim>\<open>CHARACTERS[ch - 32][0..7]\<close> are in bounds.\<close>

definition glyph_ok :: "fgcugl_h \<Rightarrow> char \<Rightarrow> bool" where
  "glyph_ok h ch =
     (0 \<le> char_code ch - 32 \<and> char_code ch - 32 < int (length (CHARACTERS h)) \<and>
      8 \<le> length (CHARACTERS h ! nat (char_code ch - 32)))"

definition glyph_of :: "fgcugl_h \<Rightarrow> char \<Rightarrow> 8 word list" where
  "glyph_of h ch = CHARACTERS h ! nat (char_code ch - 32)"

text \<open>The points of the string from character number \<open>c\<close> on, or the error the loop
  ends in.\<close>

fun text_points :: "fgcugl_h \<Rightarrow> int \<Rightarrow> string \<Rightarrow> GLfloat \<Rightarrow> GLfloat \<Rightarrow> int \<Rightarrow> error + (GLfloat \<times> GLfloat) list" where
  "text_points h c [] x y sz = Inr []"
| "text_points h c (ch # str) x y sz =
     (if \<not> glyph_ok h ch then Inl OutOfBounds
      else
        (case int_add c 1 of
           Inl e \<Rightarrow> Inl e
         | Inr c' \<Rightarrow>
             (case text_points h c' str (x + 8 * of_int sz) y sz of
                Inl e \<Rightarrow> Inl e
              | Inr pts \<Rightarrow> Inr (glyph_points (glyph_of h ch) x y sz @ pts))))"

section \<open>Definitions for the statements and examples\<close>

text \<open>The Euclidean distance of two points.\<close>

definition euclid :: "GLfloat \<times> GLfloat \<Rightarrow> GLfloat \<times> GLfloat \<Rightarrow> real" where
  "euclid p q = sqrt ((fst p - fst q)\<^sup>2 + (snd p - snd q)\<^sup>2)"

text \<open>A state for the examples: the initial values of OpenGL, nothing drawn.\<close>

definition gl_initial :: gl_state where
  "gl_initial =
     \<lparr>gl_color = (1, 1, 1), gl_point_size = 1, gl_point_smooth = False, gl_line_width = 1,
      gl_line_smooth = False, gl_attrib_stack = [], gl_vertex_array = False,
      gl_vertex_pointer = [], gl_drawn = []\<rparr>"

text \<open>A header for the examples: 95 blank glyphs of 8 rows but for \<open>A\<close> (code 65, index
  33), and white as the default colour of \<^verbatim>\<open>drawPoint\<close>, as its comment documents.\<close>

definition sample_h :: fgcugl_h where
  "sample_h =
     \<lparr>CHARACTERS = (replicate 95 (replicate 8 0))[33 := [0x18, 0x24, 0x42, 0x7E, 0x42, 0x42, 0x42, 0x00]],
      drawPoint_color = 0xFFFFFF,
      drawPoint_smooth = True\<rparr>"

section \<open>setColor: the decoded channels\<close>

lemma mask8: "(255 :: 32 word) = mask 8"
  by (simp add: mask_eq_exp_minus_1)

lemma unat_channel0: "unat ((c :: 32 word) AND 0xFF) = unat c mod 2 ^ 8"
proof -
  have "c AND 0xFF = take_bit 8 c"
    unfolding mask8 by (simp add: take_bit_eq_mask)
  then show ?thesis
    by (simp only: unsigned_take_bit_eq take_bit_eq_mod [where 'a = nat])
qed

lemma setColor_eq: "setColor color s = s\<lparr>gl_color := spec_decode color\<rparr>"
  by (simp only: setColor_def Let_def glColor3f_def spec_decode_def unat_channel0
      unat_drop_bit_eq drop_bit_eq_div [where 'a = nat])

lemma spec_decode_range:
  "spec_decode c = (r, g, b) \<Longrightarrow> 0 \<le> r \<and> r \<le> 1 \<and> 0 \<le> g \<and> g \<le> 1 \<and> 0 \<le> b \<and> b \<le> 1"
proof -
  have le: "real (n mod 2 ^ 8) / 255 \<le> 1" for n :: nat
  proof -
    have "n mod 2 ^ 8 < 2 ^ 8" by simp
    then have "n mod 2 ^ 8 \<le> 255" by simp
    then show ?thesis by simp
  qed
  assume "spec_decode c = (r, g, b)"
  then have "r = real (unat c div 2 ^ 16 mod 2 ^ 8) / 255"
    and "g = real (unat c div 2 ^ 8 mod 2 ^ 8) / 255"
    and "b = real (unat c mod 2 ^ 8) / 255"
    by (simp_all only: spec_decode_def prod.inject)
  then show ?thesis
    using le [of "unat c div 2 ^ 16"] le [of "unat c div 2 ^ 8"] le [of "unat c"] by simp
qed

text \<open>C5. \<^verbatim>\<open>setColor\<close> makes the current colour the one the specification decodes:
  red from bits 16 to 23, green from bits 8 to 15, blue from bits 0 to 7, each divided
  by 255 and so between 0 and 1. \<^verbatim>\<open>0xFF8040\<close> gives (1.0, 0.502, 0.251) within 1/255,
  \<^verbatim>\<open>0x000000\<close> gives (0, 0, 0) and \<^verbatim>\<open>0xFFFFFF\<close> gives (1, 1, 1).\<close>

theorem setColor_decodes:
  "gl_color (setColor c s) = spec_decode c
   \<and> (case gl_color (setColor c s) of
        (r, g, b) \<Rightarrow> 0 \<le> r \<and> r \<le> 1 \<and> 0 \<le> g \<and> g \<le> 1 \<and> 0 \<le> b \<and> b \<le> 1)
   \<and> (case gl_color (setColor 0xFF8040 s) of
        (r, g, b) \<Rightarrow> \<bar>r - 1.0\<bar> \<le> 1 / 255 \<and> \<bar>g - 0.502\<bar> \<le> 1 / 255 \<and> \<bar>b - 0.251\<bar> \<le> 1 / 255)
   \<and> gl_color (setColor 0x000000 s) = (0, 0, 0)
   \<and> gl_color (setColor 0xFFFFFF s) = (1, 1, 1)"
proof -
  have dec: "gl_color (setColor c s) = spec_decode c"
    by (simp add: setColor_eq)
  have rng: "case gl_color (setColor c s) of
      (r, g, b) \<Rightarrow> 0 \<le> r \<and> r \<le> 1 \<and> 0 \<le> g \<and> g \<le> 1 \<and> 0 \<le> b \<and> b \<le> 1"
    unfolding dec using spec_decode_range [of c] by (cases "spec_decode c") simp
  have ex1: "gl_color (setColor 0xFF8040 s) = (1, 128 / 255, 64 / 255)"
    by (simp add: setColor_def glColor3f_def)
  have ex2: "gl_color (setColor 0x000000 s) = (0, 0, 0)"
    by (simp add: setColor_def glColor3f_def)
  have ex3: "gl_color (setColor 0xFFFFFF s) = (1, 1, 1)"
    by (simp add: setColor_def glColor3f_def)
  show ?thesis
    unfolding ex1 ex2 ex3 using dec rng by simp
qed

lemma high_bits:
  "drop_bit 16 (take_bit 24 (c :: 32 word)) AND 0xFF = drop_bit 16 c AND 0xFF"
  "drop_bit 8 (take_bit 24 (c :: 32 word)) AND 0xFF = drop_bit 8 c AND 0xFF"
  "take_bit 24 (c :: 32 word) AND 0xFF = c AND 0xFF"
  unfolding mask8
  by (rule bit_eqI; auto simp add: bit_simps)+

text \<open>C6. Bits 24 to 31 of the packed colour never reach the state: \<^verbatim>\<open>setColor\<close>
  on \<open>c\<close> and on \<open>c mod 2^24\<close> give the same state, for every 32-bit \<open>c\<close>.
  \<^verbatim>\<open>setColor\<close> has no error result: it is a total function to states.\<close>

theorem setColor_ignores_high_bits:
  "setColor c s = setColor (c mod 2 ^ 24) s
   \<and> gl_color (setColor c s) = gl_color (setColor (c mod 2 ^ 24) s)"
proof -
  have "(c :: 32 word) mod 2 ^ 24 = take_bit 24 c"
    by (simp add: take_bit_eq_mod)
  then have "setColor (c mod 2 ^ 24) s = setColor c s"
    unfolding setColor_def by (simp only: high_bits)
  then show ?thesis by simp
qed

section \<open>Rounding to single precision: error and exact cases\<close>

lemma rne_error: "\<bar>of_int (rne q) - q\<bar> \<le> 1 / 2"
  unfolding rne_def Let_def by (auto; linarith)

lemma rne_near: "\<bar>q - of_int k\<bar> < 1 / 2 \<Longrightarrow> rne q = k"
proof -
  assume a: "\<bar>q - of_int k\<bar> < 1 / 2"
  have "\<bar>of_int (rne q) - q\<bar> \<le> 1 / 2"
    by (rule rne_error)
  with a have "\<bar>(of_int (rne q) :: real) - of_int k\<bar> < 1"
    by linarith
  then have "\<bar>of_int (rne q - k) :: real\<bar> < 1"
    by simp
  then have "\<bar>rne q - k\<bar> < 1"
    by linarith
  then show ?thesis
    by linarith
qed

lemma rne_of_int: "rne (of_int k) = k"
  by (rule rne_near) simp

lemma f32_ulp_pos: "0 < f32_ulp x"
  unfolding f32_ulp_def by simp

lemma powr_powi: "(2 :: real) powr real_of_int k = 2 powi k"
  by (rule powr_real_of_int') simp_all

lemma powr_powi_Suc: "(2 :: real) powr (real_of_int k + 1) = 2 powi (k + 1)"
  using powr_powi [of "k + 1"] by simp

lemma f32_exponent_eq:
  assumes "2 powi e \<le> \<bar>x\<bar>" and "\<bar>x\<bar> < 2 powi (e + 1)" and "- 126 \<le> e"
  shows "f32_exponent x = e"
proof -
  have pos: "0 < \<bar>x\<bar>"
    using assms(1) zero_less_power_int [of "2 :: real" e] by linarith
  have "2 powr real_of_int e \<le> \<bar>x\<bar> \<and> \<bar>x\<bar> < 2 powr (real_of_int e + 1)"
    using assms(1, 2) unfolding powr_powi_Suc powr_powi by simp
  then have "\<lfloor>log 2 \<bar>x\<bar>\<rfloor> = e"
    using pos by (subst floor_log_eq_powr_iff) simp_all
  then show ?thesis
    unfolding f32_exponent_def using assms(3) by simp
qed

lemma f32_exponent_normal:
  assumes "2 powi (- 126) \<le> \<bar>x\<bar>"
  shows "2 powi f32_exponent x \<le> \<bar>x\<bar>"
proof -
  have pos: "0 < \<bar>x\<bar>"
    using assms zero_less_power_int [of "2 :: real" "- 126"] by linarith
  define k where "k = \<lfloor>log 2 \<bar>x\<bar>\<rfloor>"
  have "2 powr real_of_int k \<le> \<bar>x\<bar> \<and> \<bar>x\<bar> < 2 powr (real_of_int k + 1)"
    using floor_log_eq_powr_iff [of "\<bar>x\<bar>" 2 k] pos unfolding k_def by simp
  then have k: "2 powi k \<le> \<bar>x\<bar>" "\<bar>x\<bar> < 2 powi (k + 1)"
    unfolding powr_powi_Suc powr_powi by simp_all
  have "- 126 \<le> k"
  proof (rule ccontr)
    assume "\<not> - 126 \<le> k"
    then have "k + 1 \<le> - 126"
      by simp
    then have "(2 :: real) powi (k + 1) \<le> 2 powi (- 126)"
      by (intro power_int_increasing) simp_all
    with k(2) assms show False
      by linarith
  qed
  then have "f32_exponent x = k"
    unfolding f32_exponent_def k_def by simp
  with k(1) show ?thesis
    by simp
qed

lemma f32_ulp_half: "f32_ulp x / 2 = 2 powi (f32_exponent x - 24)"
proof -
  have "(2 :: real) powi (f32_exponent x - 23) = 2 powi (f32_exponent x - 24 + 1)"
    by simp
  also have "\<dots> = 2 powi (f32_exponent x - 24) * 2"
    by (subst power_int_add) simp_all
  finally show ?thesis
    unfolding f32_ulp_def by simp
qed

lemma f32_half_ulp: "\<bar>f32 x - x\<bar> \<le> f32_ulp x / 2"
proof (cases "x = 0")
  case True
  then show ?thesis
    using f32_ulp_pos [of x] by (simp add: f32_def)
next
  case False
  have u: "0 < f32_ulp x"
    by (rule f32_ulp_pos)
  have "\<bar>of_int (rne (x / f32_ulp x)) - x / f32_ulp x\<bar> \<le> 1 / 2"
    by (rule rne_error)
  then have "\<bar>of_int (rne (x / f32_ulp x)) - x / f32_ulp x\<bar> * f32_ulp x \<le> 1 / 2 * f32_ulp x"
    using u by (intro mult_right_mono) simp_all
  moreover have "\<bar>of_int (rne (x / f32_ulp x)) - x / f32_ulp x\<bar> * f32_ulp x
      = \<bar>(of_int (rne (x / f32_ulp x)) - x / f32_ulp x) * f32_ulp x\<bar>"
    using u by (simp add: abs_mult)
  moreover have "(of_int (rne (x / f32_ulp x)) - x / f32_ulp x) * f32_ulp x
      = of_int (rne (x / f32_ulp x)) * f32_ulp x - x"
    using u by (simp add: left_diff_distrib)
  ultimately show ?thesis
    using False by (simp add: f32_def)
qed

lemma f32_rel_error:
  assumes "1 / 2 ^ 126 \<le> \<bar>x\<bar>"
  shows "\<bar>f32 x - x\<bar> \<le> \<bar>x\<bar> / 2 ^ 24"
proof -
  have "(2 :: real) powi (- 126) \<le> \<bar>x\<bar>"
    using assms by (simp add: power_int_minus_divide)
  then have e: "2 powi f32_exponent x \<le> \<bar>x\<bar>"
    by (rule f32_exponent_normal)
  have "f32_ulp x / 2 = 2 powi (f32_exponent x) * 2 powi (- 24)"
    unfolding f32_ulp_half by (subst power_int_add [symmetric]) simp_all
  also have "\<dots> = 2 powi (f32_exponent x) / 2 ^ 24"
    by (simp add: power_int_minus_divide)
  also have "\<dots> \<le> \<bar>x\<bar> / 2 ^ 24"
    using e by (simp add: divide_right_mono)
  finally show ?thesis
    using f32_half_ulp [of x] by linarith
qed

lemma f32_error: "\<bar>f32 x - x\<bar> \<le> \<bar>x\<bar> / 2 ^ 24 + 1 / 2 ^ 150"
proof (cases "1 / 2 ^ 126 \<le> \<bar>x\<bar>")
  case True
  then show ?thesis
    using f32_rel_error [of x] by simp
next
  case False
  show ?thesis
  proof (cases "x = 0")
    case True
    then show ?thesis
      by (simp add: f32_def)
  next
    case nz: False
    have lt: "\<bar>x\<bar> < 2 powi (- 126)"
      using False by (simp add: power_int_minus_divide)
    have "\<lfloor>log 2 \<bar>x\<bar>\<rfloor> < - 126"
    proof (rule ccontr)
      assume "\<not> \<lfloor>log 2 \<bar>x\<bar>\<rfloor> < - 126"
      then have "real_of_int (- 126) \<le> log 2 \<bar>x\<bar>"
        by linarith
      then have "2 powr real_of_int (- 126) \<le> \<bar>x\<bar>"
        using nz by (subst (asm) le_log_iff) simp_all
      then show False
        using lt unfolding powr_powi by linarith
    qed
    then have "f32_exponent x = - 126"
      unfolding f32_exponent_def by simp
    then have "f32_ulp x / 2 = 1 / 2 ^ 150"
      unfolding f32_ulp_half by (simp add: power_int_minus_divide)
    then have "\<bar>f32 x - x\<bar> \<le> 1 / 2 ^ 150"
      using f32_half_ulp [of x] by linarith
    moreover have "0 \<le> \<bar>x\<bar> / 2 ^ 24"
      by simp
    ultimately show ?thesis
      by linarith
  qed
qed

lemma f32_near:
  assumes "2 powi e \<le> \<bar>x\<bar>" and "\<bar>x\<bar> < 2 powi (e + 1)" and "- 126 \<le> e"
    and "\<bar>x / 2 powi (e - 23) - of_int k\<bar> < 1 / 2"
  shows "f32 x = of_int k * 2 powi (e - 23)"
proof -
  have e: "f32_exponent x = e"
    using assms(1-3) by (rule f32_exponent_eq)
  have "0 < \<bar>x\<bar>"
    using assms(1) zero_less_power_int [of "2 :: real" e] by linarith
  then have nz: "x \<noteq> 0"
    by auto
  have "rne (x / 2 powi (e - 23)) = k"
    using assms(4) by (rule rne_near)
  then show ?thesis
    using nz by (simp add: f32_def f32_ulp_def e)
qed

lemma f32_exact:
  assumes "x = of_int m * f32_ulp x"
  shows "f32 x = x"
proof (cases "x = 0")
  case True
  then show ?thesis
    by (simp add: f32_def)
next
  case False
  have "x / f32_ulp x = of_int m"
    using assms f32_ulp_pos [of x] by (simp add: field_simps)
  then have "rne (x / f32_ulp x) = m"
    by (simp add: rne_of_int)
  then show ?thesis
    using False assms by (simp add: f32_def)
qed

lemma f32_of_int:
  assumes "\<bar>k\<bar> \<le> 2 ^ 24"
  shows "f32 (of_int k) = of_int k"
proof (cases "k = 0")
  case True
  then show ?thesis
    by (simp add: f32_def)
next
  case False
  define x :: real where "x = of_int k"
  define e where "e = f32_exponent x"
  have "1 \<le> \<bar>k\<bar>"
    using False by linarith
  then have x1: "1 \<le> \<bar>x\<bar>"
    unfolding x_def by (simp flip: of_int_abs)
  have "real_of_int \<bar>k\<bar> \<le> real_of_int (2 ^ 24)"
    using assms by (simp only: of_int_le_iff)
  then have xu: "\<bar>x\<bar> \<le> 2 ^ 24"
    unfolding x_def by simp
  have "(2 :: real) powi (- 126) \<le> 1"
    by (simp add: power_int_minus_divide)
  with x1 have "2 powi (- 126) \<le> \<bar>x\<bar>"
    by linarith
  then have lo: "2 powi e \<le> \<bar>x\<bar>"
    unfolding e_def by (rule f32_exponent_normal)
  have e24: "e \<le> 24"
  proof (rule ccontr)
    assume "\<not> e \<le> 24"
    then have "25 \<le> e"
      by simp
    then have "(2 :: real) powi 25 \<le> 2 powi e"
      by (intro power_int_increasing) simp_all
    with lo xu show False
      by simp
  qed
  have "\<exists>m. x = of_int m * f32_ulp x"
  proof (cases "e \<le> 23")
    case True
    define d where "d = nat (23 - e)"
    have "e - 23 = - int d"
      unfolding d_def using True by simp
    then have u: "f32_ulp x = 1 / 2 ^ d"
      unfolding f32_ulp_def e_def [symmetric] by (simp add: power_int_minus_divide)
    have "x = of_int (k * 2 ^ d) * (1 / 2 ^ d)"
      unfolding x_def by simp
    then have "x = of_int (k * 2 ^ d) * f32_ulp x"
      unfolding u .
    then show ?thesis
      by blast
  next
    case False
    with e24 have e: "e = 24"
      by simp
    then have u: "f32_ulp x = 2"
      unfolding f32_ulp_def e_def [symmetric] by simp
    from lo xu have "\<bar>x\<bar> = 2 ^ 24"
      unfolding e by simp
    then have "real_of_int \<bar>k\<bar> = real_of_int (2 ^ 24)"
      unfolding x_def by simp
    then have "\<bar>k\<bar> = 2 ^ 24"
      by (simp only: of_int_eq_iff)
    then have "k = 16777216 \<or> k = - 16777216"
      by (simp add: abs_if split: if_splits)
    then have "k = (k div 2) * 2"
      by auto
    then have "real_of_int k = real_of_int ((k div 2) * 2)"
      by (simp only:)
    then have "x = of_int (k div 2) * 2"
      unfolding x_def by (simp only: of_int_mult of_int_numeral)
    then have "x = of_int (k div 2) * f32_ulp x"
      unfolding u .
    then show ?thesis
      by blast
  qed
  then obtain m where "x = of_int m * f32_ulp x"
    by blast
  then have "f32 x = x"
    by (rule f32_exact)
  then show ?thesis
    unfolding x_def .
qed

lemma f32_tie: "f32 16777217 = 16777216"
proof -
  have e: "f32_exponent 16777217 = 24"
    by (rule f32_exponent_eq) simp_all
  have "rne (16777217 / 2) = 8388608"
    unfolding rne_def Let_def by simp
  then show ?thesis
    by (simp add: f32_def f32_ulp_def e)
qed

lemma xpos_f32_exact:
  "\<bar>xi\<bar> + int b * \<bar>sz\<bar> \<le> 2 ^ 24 \<Longrightarrow>
   drawText_xpos_f32 (of_int xi) sz b = of_int xi + real b * of_int sz"
proof (induction b arbitrary: xi)
  case 0
  then show ?case
    by simp
next
  case (Suc b)
  have m: "0 \<le> int b * \<bar>sz\<bar>"
    by simp
  have bound: "\<bar>xi\<bar> + \<bar>sz\<bar> + int b * \<bar>sz\<bar> \<le> 2 ^ 24"
    using Suc.prems by (simp add: algebra_simps)
  have "\<bar>sz\<bar> \<le> 2 ^ 24"
    using bound m by linarith
  then have s: "f32 (of_int sz) = of_int sz"
    by (rule f32_of_int)
  have "\<bar>xi + sz\<bar> \<le> 2 ^ 24"
    using bound m by linarith
  then have "f32 (of_int (xi + sz)) = of_int (xi + sz)"
    by (rule f32_of_int)
  then have a: "f32 (of_int xi + of_int sz) = of_int (xi + sz)"
    by simp
  have "\<bar>xi + sz\<bar> + int b * \<bar>sz\<bar> \<le> 2 ^ 24"
    using bound by linarith
  then have "drawText_xpos_f32 (of_int (xi + sz)) sz b = of_int (xi + sz) + real b * of_int sz"
    by (rule Suc.IH)
  moreover have "drawText_xpos_f32 (of_int xi) sz (Suc b) = drawText_xpos_f32 (of_int (xi + sz)) sz b"
    by (simp only: drawText_xpos_f32.simps s a)
  ultimately show ?case
    by (simp add: algebra_simps)
qed

lemma xpos_f32_stall: "drawText_xpos_f32 16777216 1 b = 16777216"
proof (induction b)
  case 0
  show ?case
    by simp
next
  case (Suc b)
  have "f32 (of_int 1) = of_int 1"
    by (rule f32_of_int) simp
  then have "f32 1 = 1"
    by simp
  then show ?case
    using Suc by (simp add: f32_tie)
qed

lemma xpos_f32_short: "drawText_xpos_f32 16777212 1 8 = 16777216"
proof -
  have "drawText_xpos_f32 (of_int 16777212) 1 4 = of_int 16777212 + real 4 * of_int 1"
    by (rule xpos_f32_exact) simp
  then have a: "drawText_xpos_f32 16777212 1 4 = 16777216"
    by simp
  have split: "drawText_xpos_f32 x sz (m + n) = drawText_xpos_f32 (drawText_xpos_f32 x sz m) sz n"
    for x sz m n
    by (induction m arbitrary: x) simp_all
  have "drawText_xpos_f32 16777212 1 (4 + 4) = 16777216"
    unfolding split a by (rule xpos_f32_stall)
  then show ?thesis
    by simp
qed

section \<open>The loops in closed form\<close>

lemma take_Suc_update: "k < length xs \<Longrightarrow> take (Suc k) (xs[k := v]) = take k xs @ [v]"
  by (simp add: take_Suc_conv_app_nth)

lemma drawCircle_rim_eq:
  "sides \<noteq> 0 \<Longrightarrow> 0 \<le> i \<Longrightarrow> i \<le> n \<Longrightarrow> length vx = nat n \<Longrightarrow> length vy = nat n \<Longrightarrow>
   drawCircle_rim i n x y radius sides vx vy =
     Inr (take (nat i) vx @ map (\<lambda>j. fst (rim_vertex x y radius sides j)) [nat i..<nat n],
          take (nat i) vy @ map (\<lambda>j. snd (rim_vertex x y radius sides j)) [nat i..<nat n])"
proof (induction i n x y radius sides vx vy rule: drawCircle_rim.induct)
  case (1 i n x y radius sides vx vy)
  show ?case
  proof (cases "i < n")
    case False
    with 1 show ?thesis
      by (simp add: drawCircle_rim.simps)
  next
    case True
    let ?v = "f32 (x + f32 (radius *
        f32 (cos (f32 (f32 (f32 (of_int i) * doublePi) / f32 (of_int sides))))))"
    let ?w = "f32 (y + f32 (radius *
        f32 (sin (f32 (f32 (f32 (of_int i) * doublePi) / f32 (of_int sides))))))"
    have k: "nat i < nat n" "nat (i + 1) = Suc (nat i)" "real (nat i) = of_int i"
      using True "1.prems" by simp_all
    have v: "fst (rim_vertex x y radius sides (nat i)) = ?v"
      "snd (rim_vertex x y radius sides (nat i)) = ?w"
      by (simp_all only: rim_vertex_def rim_angle_def k fst_conv snd_conv)
    have sx: "store vx i ?v = Inr (vx[nat i := ?v])" and sy: "store vy i ?w = Inr (vy[nat i := ?w])"
      using True "1.prems" by (simp_all add: store_def)
    have ih: "drawCircle_rim (i + 1) n x y radius sides (vx[nat i := ?v]) (vy[nat i := ?w]) =
      Inr (take (nat (i + 1)) (vx[nat i := ?v]) @
             map (\<lambda>j. fst (rim_vertex x y radius sides j)) [nat (i + 1)..<nat n],
           take (nat (i + 1)) (vy[nat i := ?w]) @
             map (\<lambda>j. snd (rim_vertex x y radius sides j)) [nat (i + 1)..<nat n])"
      using True "1.prems" by (intro "1.IH" [OF True _ sx sy]) simp_all
    have up: "[nat i..<nat n] = nat i # [Suc (nat i)..<nat n]"
      using k by (simp add: upt_conv_Cons)
    show ?thesis
      using True "1.prems" k
      by (subst drawCircle_rim.simps) (simp add: sx sy ih take_Suc_update up v)
  qed
qed

lemma take_double_update:
  "2 * k + 1 < length a \<Longrightarrow> take (2 * Suc k) (a[2 * k := v, Suc (2 * k) := w]) = take (2 * k) a @ [v, w]"
  by (simp add: take_Suc_conv_app_nth)

lemma drawCircle_pack_eq:
  "0 \<le> i \<Longrightarrow> i \<le> n \<Longrightarrow> length vx = nat n \<Longrightarrow> length vy = nat n \<Longrightarrow> length a = 2 * nat n \<Longrightarrow>
   drawCircle_pack i n vx vy a =
     Inr (take (2 * nat i) a @ concat (map (\<lambda>j. [vx ! j, vy ! j]) [nat i..<nat n]))"
proof (induction i n vx vy a rule: drawCircle_pack.induct)
  case (1 i n vx vy a)
  show ?case
  proof (cases "i < n")
    case False
    with 1 show ?thesis
      by (simp add: drawCircle_pack.simps)
  next
    case True
    have k: "nat i < nat n" "nat (i + 1) = Suc (nat i)" "nat (i * 2) = 2 * nat i"
      "nat (i * 2 + 1) = Suc (2 * nat i)"
      using True "1.prems" by (simp_all add: nat_mult_distrib nat_add_distrib)
    have lx: "load vx i = Inr (vx ! nat i)" and ly: "load vy i = Inr (vy ! nat i)"
      using True "1.prems" by (simp_all add: load_def)
    have s1: "store a (i * 2) (vx ! nat i) = Inr (a[2 * nat i := vx ! nat i])"
      using True "1.prems" k by (simp add: store_def)
    have s2: "store (a[2 * nat i := vx ! nat i]) (i * 2 + 1) (vy ! nat i) =
        Inr (a[2 * nat i := vx ! nat i, Suc (2 * nat i) := vy ! nat i])"
      using True "1.prems" k by (simp add: store_def)
    have ih: "drawCircle_pack (i + 1) n vx vy (a[2 * nat i := vx ! nat i, Suc (2 * nat i) := vy ! nat i]) =
      Inr (take (2 * nat (i + 1)) (a[2 * nat i := vx ! nat i, Suc (2 * nat i) := vy ! nat i]) @
           concat (map (\<lambda>j. [vx ! j, vy ! j]) [nat (i + 1)..<nat n]))"
      using True "1.prems" by (intro "1.IH" [OF True lx s1 ly s2]) simp_all
    have up: "[nat i..<nat n] = nat i # [Suc (nat i)..<nat n]"
      using k by (simp add: upt_conv_Cons)
    have tk: "take (2 * Suc (nat i)) (a[2 * nat i := vx ! nat i, Suc (2 * nat i) := vy ! nat i]) =
        take (2 * nat i) a @ [vx ! nat i, vy ! nat i]"
    proof (rule take_double_update)
      show "2 * nat i + 1 < length (a)"
        using True "1.prems" by linarith
    qed
    show ?thesis
      using True
      by (subst drawCircle_pack.simps) (simp add: lx ly s1 s2 ih k tk up del: mult_Suc_right)
  qed
qed

lemma pairs_unzip: "pairs (concat (map (\<lambda>(a, b). [a, b]) ps)) = ps"
  by (induction ps) auto

lemma flat_zip:
  "length vx = n \<Longrightarrow> length vy = n \<Longrightarrow>
   concat (map (\<lambda>j. [vx ! j, vy ! j]) [0..<n]) = concat (map (\<lambda>(a, b). [a, b]) (zip vx vy))"
proof -
  assume l: "length vx = n" "length vy = n"
  have "zip vx vy = map (\<lambda>j. (vx ! j, vy ! j)) [0..<n]"
    using l by (simp add: list_eq_iff_nth_eq)
  then show ?thesis
    by (simp add: comp_def)
qed

lemma drawCircle_vertices_eq:
  assumes "1 \<le> sides" and "sides \<le> 1073741821"
  shows "drawCircle_vertices x y radius sides = Inr (sides + 2, circle_array x y radius sides)"
proof -
  let ?n = "sides + 2"
  let ?fx = "\<lambda>j. fst (rim_vertex x y radius sides j)"
  let ?fy = "\<lambda>j. snd (rim_vertex x y radius sides j)"
  let ?vx = "x # map ?fx [1..<nat ?n]"
  let ?vy = "y # map ?fy [1..<nat ?n]"
  have a: "int_add sides 2 = Inr ?n"
    using assms by (simp add: int_add_def INT_MAX_def INT_MIN_def)
  have b: "new_GLfloat ?n = Inr (replicate (nat ?n) 0)"
    using assms by (simp add: new_GLfloat_def)
  have c: "store (replicate (nat ?n) 0) 0 v = Inr ((replicate (nat ?n) 0)[0 := v])" for v :: real
    using assms by (simp add: store_def)
  have d: "drawCircle_rim 1 ?n x y radius sides ((replicate (nat ?n) 0)[0 := x])
             ((replicate (nat ?n) 0)[0 := y]) = Inr (?vx, ?vy)"
  proof -
    have "take (nat 1) ((replicate (nat ?n) 0)[0 := v]) = [v]" for v :: real
      using assms by (cases "nat ?n") simp_all
    then show ?thesis
      using assms by (subst drawCircle_rim_eq) simp_all
  qed
  have e: "int_mul ?n 2 = Inr (?n * 2)"
    using assms by (simp add: int_mul_def INT_MAX_def INT_MIN_def)
  have f: "new_GLfloat (?n * 2) = Inr (replicate (nat (?n * 2)) 0)"
    using assms by (simp add: new_GLfloat_def)
  have len: "length ?vx = nat ?n" "length ?vy = nat ?n"
    using assms by simp_all
  have g: "drawCircle_pack 0 ?n ?vx ?vy (replicate (nat (?n * 2)) 0) =
      Inr (concat (map (\<lambda>j. [?vx ! j, ?vy ! j]) [0..<nat ?n]))"
    using assms len by (subst drawCircle_pack_eq) (simp_all add: nat_mult_distrib)
  have h: "concat (map (\<lambda>j. [?vx ! j, ?vy ! j]) [0..<nat ?n]) = circle_array x y radius sides"
    unfolding flat_zip [OF len] circle_array_def
    by (simp add: zip_map_map zip_same_conv_map comp_def)
  show ?thesis
    by (simp only: drawCircle_vertices_def a b c d e f g h sum.case prod.case)
qed

lemma drawPoint_drawn:
  "gl_drawn (drawPoint x y psize color smooth s) = gl_drawn s @ [point_call (spec_decode color) (x, y)]"
  by (simp add: drawPoint_def Let_def setColor_eq glPushAttrib_POINT_BIT_def glPopAttrib_def
      glEnable_POINT_SMOOTH_def glDisable_POINT_SMOOTH_def glEnableClientState_VERTEX_ARRAY_def
      glDisableClientState_VERTEX_ARRAY_def glPointSize_def glVertexPointer_2f_def glDrawArrays_def
      point_call_def)

lemma xs_loop_from:
  "k \<le> m \<Longrightarrow>
   gl_drawn (drawText_xs_loop h (a + real k) (a + real m) ys s) =
     gl_drawn s @ map (\<lambda>j. text_call h (a + real j, ys)) [k..<m]"
proof (induction "m - k" arbitrary: k s)
  case 0
  then show ?case
    by (subst drawText_xs_loop.simps) simp
next
  case (Suc d)
  then have lt: "k < m" and d: "d = m - Suc k" and le: "Suc k \<le> m"
    by simp_all
  let ?s' = "drawPoint (a + real k) ys 1 (drawPoint_color h) (drawPoint_smooth h) s"
  have step: "drawText_xs_loop h (a + real k) (a + real m) ys s =
      drawText_xs_loop h (a + real (Suc k)) (a + real m) ys ?s'"
    using lt by (subst drawText_xs_loop.simps) (simp add: ac_simps)
  have "gl_drawn (drawText_xs_loop h (a + real k) (a + real m) ys s) =
      gl_drawn ?s' @ map (\<lambda>j. text_call h (a + real j, ys)) [Suc k..<m]"
    unfolding step by (rule Suc.hyps(1) [OF d le])
  also have "\<dots> = gl_drawn s @ map (\<lambda>j. text_call h (a + real j, ys)) [k..<m]"
    by (simp add: drawPoint_drawn upt_conv_Cons [OF lt])
  finally show ?case .
qed

lemma xs_loop_drawn:
  "gl_drawn (drawText_xs_loop h xpos (xpos + of_int sz) ys s) =
     gl_drawn s @ map (\<lambda>j. text_call h (xpos + real j, ys)) [0..<nat sz]"
proof (cases "0 \<le> sz")
  case True
  then have e: "xpos + of_int sz = xpos + real (nat sz)"
    by simp
  show ?thesis
    unfolding e using xs_loop_from [of 0 "nat sz" h xpos ys s] by simp
next
  case False
  then show ?thesis
    by (subst drawText_xs_loop.simps) simp
qed

lemma ys_loop_from:
  "k \<le> m \<Longrightarrow>
   gl_drawn (drawText_ys_loop h (a + real k) (a + real m) xpos sz s) =
     gl_drawn s @
     concat (map (\<lambda>i. map (\<lambda>j. text_call h (xpos + real j, a + real i)) [0..<nat sz]) [k..<m])"
proof (induction "m - k" arbitrary: k s)
  case 0
  then show ?case
    by (subst drawText_ys_loop.simps) simp
next
  case (Suc d)
  then have lt: "k < m" and d: "d = m - Suc k" and le: "Suc k \<le> m"
    by simp_all
  let ?row = "\<lambda>i. map (\<lambda>j. text_call h (xpos + real j, a + real i)) [0..<nat sz]"
  let ?s' = "drawText_xs_loop h xpos (xpos + of_int sz) (a + real k) s"
  have step: "drawText_ys_loop h (a + real k) (a + real m) xpos sz s =
      drawText_ys_loop h (a + real (Suc k)) (a + real m) xpos sz ?s'"
    using lt by (subst drawText_ys_loop.simps) (simp add: ac_simps)
  have "gl_drawn (drawText_ys_loop h (a + real k) (a + real m) xpos sz s) =
      gl_drawn ?s' @ concat (map ?row [Suc k..<m])"
    unfolding step by (rule Suc.hyps(1) [OF d le])
  also have "\<dots> = gl_drawn s @ concat (map ?row [k..<m])"
    by (simp add: xs_loop_drawn upt_conv_Cons [OF lt])
  finally show ?case .
qed

lemma ys_loop_drawn:
  "gl_drawn (drawText_ys_loop h ypos (ypos + of_int sz) xpos sz s) =
     gl_drawn s @ map (text_call h) (block_points xpos ypos sz)"
proof (cases "0 \<le> sz")
  case True
  then have e: "ypos + of_int sz = ypos + real (nat sz)"
    by simp
  show ?thesis
    unfolding e using ys_loop_from [of 0 "nat sz" h ypos xpos sz s]
    by (simp add: block_points_def map_concat comp_def)
next
  case False
  then show ?thesis
    by (subst drawText_ys_loop.simps) (simp add: block_points_def)
qed

lemma top_bit: "((byte :: 8 word) AND 0x80 \<noteq> 0) = bit byte 7"
proof -
  have "(byte AND 2 ^ 7 = 0) = (\<not> bit byte 7)"
    by (rule and_exp_eq_0_iff_not_bit)
  then show ?thesis
    by simp
qed

lemma bit_loop_eq:
  "0 \<le> b \<Longrightarrow> b \<le> 8 \<Longrightarrow>
   fst (drawText_bit_loop h b byte xpos ypos sz s) = xpos + of_int (8 - b) * of_int sz \<and>
   gl_drawn (snd (drawText_bit_loop h b byte xpos ypos sz s)) =
     gl_drawn s @
     map (text_call h)
       (concat (map (\<lambda>j. if bit byte (7 - j)
                            then block_points (xpos + real j * of_int sz) ypos sz else [])
          [0..<nat (8 - b)]))"
proof (induction h b byte xpos ypos sz s rule: drawText_bit_loop.induct)
  case (1 h b byte xpos ypos sz s)
  show ?case
  proof (cases "b < 8")
    case False
    with "1.prems" have "b = 8" by simp
    then show ?thesis
      by (subst (1 2) drawText_bit_loop.simps) simp
  next
    case True
    let ?s' = "if byte AND 0x80 \<noteq> 0 then drawText_ys_loop h ypos (ypos + of_int sz) xpos sz s else s"
    let ?blk = "\<lambda>w x j. if bit (w :: 8 word) (7 - j)
                            then block_points (x + real j * of_int sz) ypos sz else []"
    have step: "drawText_bit_loop h b byte xpos ypos sz s =
        drawText_bit_loop h (b + 1) (push_bit 1 byte) (xpos + of_int sz) ypos sz ?s'"
      using True by (subst drawText_bit_loop.simps) simp
    have ih: "fst (drawText_bit_loop h (b + 1) (push_bit 1 byte) (xpos + of_int sz) ypos sz ?s') =
          xpos + of_int sz + of_int (8 - (b + 1)) * of_int sz \<and>
        gl_drawn (snd (drawText_bit_loop h (b + 1) (push_bit 1 byte) (xpos + of_int sz) ypos sz ?s')) =
          gl_drawn ?s' @
          map (text_call h)
            (concat (map (?blk (push_bit 1 byte) (xpos + of_int sz)) [0..<nat (8 - (b + 1))]))"
      using True "1.prems" by (intro "1.IH" [OF True]) simp_all
    have first: "gl_drawn ?s' = gl_drawn s @ map (text_call h) (?blk byte xpos 0)"
      by (simp add: top_bit ys_loop_drawn)
    define n where "n = nat (7 - b)"
    have n: "nat (8 - b) = Suc n" "nat (8 - (b + 1)) = n" "n < 8"
      using True "1.prems" unfolding n_def by linarith+
    have shift: "?blk (push_bit 1 byte) (xpos + of_int sz) j = ?blk byte xpos (Suc j)" if "j < n" for j
    proof -
      have "bit (push_bit 1 byte) (7 - j) =
          (1 \<le> 7 - j \<and> possible_bit TYPE(8 word) (7 - j) \<and> bit byte (7 - j - 1))"
        by (rule bit_push_bit_iff)
      moreover have "1 \<le> 7 - j" "7 - j < 8" "7 - j - 1 = 7 - Suc j"
        using that n by simp_all
      ultimately have "bit (push_bit 1 byte) (7 - j) = bit byte (7 - Suc j)"
        by (simp only: possible_bit_word, simp)
      then show ?thesis
        by (simp add: algebra_simps)
    qed
    have rest: "concat (map (?blk (push_bit 1 byte) (xpos + of_int sz)) [0..<n]) =
        concat (map (?blk byte xpos) (map Suc [0..<n]))"
    proof -
      have "map (?blk (push_bit 1 byte) (xpos + of_int sz)) [0..<n] =
          map (\<lambda>j. ?blk byte xpos (Suc j)) [0..<n]"
        by (rule map_cong [OF refl], rule shift) simp
      then show ?thesis
        by (simp only: map_map comp_def)
    qed
    have all: "[0..<Suc n] = 0 # map Suc [0..<n]"
      by (simp add: upt_conv_Cons map_Suc_upt del: upt_Suc)
    have x: "xpos + of_int sz + of_int (8 - (b + 1)) * of_int sz = xpos + of_int (8 - b) * of_int sz"
      by (simp add: algebra_simps)
    show ?thesis
      unfolding step
      using ih unfolding n rest first x all
      by (simp del: upt_Suc)
  qed
qed

lemma bit_loop_row:
  "\<exists>s'. drawText_bit_loop h 0 byte x ypos sz s = (x + 8 * of_int sz, s') \<and>
     gl_drawn s' = gl_drawn s @ map (text_call h) (row_points byte x ypos sz)"
  using bit_loop_eq [of 0 h byte x ypos sz s]
  by (cases "drawText_bit_loop h 0 byte x ypos sz s") (simp add: row_points_def)

lemma row_loop_eq:
  "load (CHARACTERS h) (char_code ch - 32) = Inr g \<Longrightarrow> 8 \<le> length g \<Longrightarrow> 0 \<le> i \<Longrightarrow> i \<le> 8 \<Longrightarrow>
   \<exists>s'. drawText_row_loop h ch i x xpos ypos sz s =
          Inr (if i < 8 then x + 8 * of_int sz else xpos, ypos - of_int (8 - i) * of_int sz, s') \<and>
        gl_drawn s' = gl_drawn s @
          map (text_call h)
            (concat (map (\<lambda>r. row_points (g ! (nat i + r)) x (ypos - real r * of_int sz) sz)
               [0..<nat (8 - i)]))"
proof (induction h ch i x xpos ypos sz s rule: drawText_row_loop.induct)
  case (1 h ch i x xpos ypos sz s)
  show ?case
  proof (cases "i < 8")
    case False
    with "1.prems" have "i = 8" by simp
    then show ?thesis
      by (subst drawText_row_loop.simps) simp
  next
    case True
    let ?rows = "\<lambda>k y r. row_points (g ! (k + r)) x (y - real r * of_int sz) sz"
    have byte: "glyph_byte h (char_code ch - 32) i = Inr (g ! nat i)"
      using True "1.prems" by (simp add: glyph_byte_def load_def)
    obtain s1 where s1: "drawText_bit_loop h 0 (g ! nat i) x ypos sz s = (x + 8 * of_int sz, s1)"
      and d1: "gl_drawn s1 = gl_drawn s @ map (text_call h) (row_points (g ! nat i) x ypos sz)"
      using bit_loop_row by blast
    have "\<exists>s'. drawText_row_loop h ch (i + 1) x (x + 8 * of_int sz) (ypos - of_int sz) sz s1 =
          Inr (if i + 1 < 8 then x + 8 * of_int sz else x + 8 * of_int sz,
               ypos - of_int sz - of_int (8 - (i + 1)) * of_int sz, s') \<and>
        gl_drawn s' = gl_drawn s1 @
          map (text_call h)
            (concat (map (?rows (nat (i + 1)) (ypos - of_int sz)) [0..<nat (8 - (i + 1))]))"
      using True "1.prems" by (intro "1.IH" [OF True byte s1 [symmetric]]) simp_all
    then obtain s' where
      r: "drawText_row_loop h ch (i + 1) x (x + 8 * of_int sz) (ypos - of_int sz) sz s1 =
          Inr (x + 8 * of_int sz, ypos - of_int sz - of_int (8 - (i + 1)) * of_int sz, s')"
      and d: "gl_drawn s' = gl_drawn s1 @
          map (text_call h)
            (concat (map (?rows (nat (i + 1)) (ypos - of_int sz)) [0..<nat (8 - (i + 1))]))"
      by auto
    define n where "n = nat (7 - i)"
    have n: "nat (8 - i) = Suc n" "nat (8 - (i + 1)) = n" "nat (i + 1) = Suc (nat i)"
      using True "1.prems" unfolding n_def by linarith+
    have shift: "map (?rows (Suc (nat i)) (ypos - of_int sz)) [0..<n] =
        map (\<lambda>r. ?rows (nat i) ypos (Suc r)) [0..<n]"
      by (rule map_cong [OF refl]) (simp add: algebra_simps)
    have all: "[0..<Suc n] = 0 # map Suc [0..<n]"
      by (simp add: upt_conv_Cons map_Suc_upt del: upt_Suc)
    have y: "ypos - of_int sz - of_int (8 - (i + 1)) * of_int sz = ypos - of_int (8 - i) * of_int sz"
      by (simp add: algebra_simps)
    have run: "drawText_row_loop h ch i x xpos ypos sz s =
        Inr (x + 8 * of_int sz, ypos - of_int (8 - i) * of_int sz, s')"
      using True by (subst drawText_row_loop.simps) (simp add: byte s1 r [unfolded y])
    have drawn: "gl_drawn s' = gl_drawn s @
        map (text_call h) (concat (map (?rows (nat i) ypos) [0..<nat (8 - i)]))"
      unfolding d d1 n shift all by (simp add: comp_def del: upt_Suc)
    show ?thesis
      using True run drawn by simp
  qed
qed

lemma row_loop_short:
  "load (CHARACTERS h) (char_code ch - 32) = Inr g \<Longrightarrow> length g < 8 \<Longrightarrow> 0 \<le> i \<Longrightarrow> i \<le> int (length g) \<Longrightarrow>
   drawText_row_loop h ch i x xpos ypos sz s = Inl OutOfBounds"
proof (induction h ch i x xpos ypos sz s rule: drawText_row_loop.induct)
  case (1 h ch i x xpos ypos sz s)
  have lt: "i < 8"
    using "1.prems" by simp
  show ?case
  proof (cases "i < int (length g)")
    case False
    then have "glyph_byte h (char_code ch - 32) i = Inl OutOfBounds"
      using "1.prems" by (simp add: glyph_byte_def load_def)
    then show ?thesis
      using lt by (subst drawText_row_loop.simps) simp
  next
    case True
    have byte: "glyph_byte h (char_code ch - 32) i = Inr (g ! nat i)"
      using True "1.prems" by (simp add: glyph_byte_def load_def)
    obtain xp s1 where s1: "drawText_bit_loop h 0 (g ! nat i) x ypos sz s = (xp, s1)"
      by (cases "drawText_bit_loop h 0 (g ! nat i) x ypos sz s")
    have "drawText_row_loop h ch (i + 1) x xp (ypos - of_int sz) sz s1 = Inl OutOfBounds"
      using True "1.prems" by (intro "1.IH" [OF lt byte s1 [symmetric]]) simp_all
    then show ?thesis
      using lt by (subst drawText_row_loop.simps) (simp add: byte s1)
  qed
qed

lemma char_rows_ok:
  assumes "glyph_ok h ch"
  shows "\<exists>s'. drawText_row_loop h ch 0 x xpos (y + 8) sz s =
          Inr (x + 8 * of_int sz, y + 8 - 8 * of_int sz, s') \<and>
        gl_drawn s' = gl_drawn s @ map (text_call h) (glyph_points (glyph_of h ch) x y sz)"
proof -
  have g: "load (CHARACTERS h) (char_code ch - 32) = Inr (glyph_of h ch)"
    and len: "8 \<le> length (glyph_of h ch)"
    using assms by (simp_all add: glyph_ok_def glyph_of_def load_def)
  show ?thesis
    using row_loop_eq [OF g len, of 0 x xpos "y + 8" sz s]
    by (simp add: glyph_points_def)
qed

lemma char_rows_err:
  assumes "\<not> glyph_ok h ch"
  shows "drawText_row_loop h ch 0 x xpos ypos sz s = Inl OutOfBounds"
proof (cases "load (CHARACTERS h) (char_code ch - 32)")
  case (Inl e)
  then have "glyph_byte h (char_code ch - 32) 0 = Inl OutOfBounds"
    by (simp add: glyph_byte_def load_def split: if_splits)
  then show ?thesis
    by (subst drawText_row_loop.simps) simp
next
  case (Inr g)
  then have "length g < 8"
    using assms by (simp add: glyph_ok_def load_def split: if_splits)
  then show ?thesis
    using row_loop_short [OF Inr, of 0] by simp
qed

lemma char_loop_eq:
  "(case text_points h c str x y sz of
      Inl e \<Rightarrow> drawText_char_loop h c str x y xpos sz s = Inl e
    | Inr pts \<Rightarrow>
        (\<exists>s'. drawText_char_loop h c str x y xpos sz s = Inr s' \<and>
              gl_drawn s' = gl_drawn s @ map (text_call h) pts))"
proof (induction str arbitrary: c x xpos s)
  case Nil
  show ?case by simp
next
  case (Cons ch str)
  show ?case
  proof (cases "glyph_ok h ch")
    case False
    then show ?thesis
      by (simp add: char_rows_err)
  next
    case True
    obtain s1 where r: "drawText_row_loop h ch 0 x xpos (y + 8) sz s =
          Inr (x + 8 * of_int sz, y + 8 - 8 * of_int sz, s1)"
      and d1: "gl_drawn s1 = gl_drawn s @ map (text_call h) (glyph_points (glyph_of h ch) x y sz)"
      using char_rows_ok [OF True] by blast
    show ?thesis
    proof (cases "int_add c 1")
      case (Inl e)
      then show ?thesis
        using True by (simp add: r)
    next
      case (Inr c')
      show ?thesis
        using Cons.IH [of c' "x + 8 * of_int sz" "x + 8 * of_int sz" s1] True
        by (cases "text_points h c' str (x + 8 * of_int sz) y sz") (auto simp add: r Inr d1)
    qed
  qed
qed

lemma drawText_emitted:
  "emitted (drawText h x y str sz color) s =
     (case text_points h 0 str x y sz of
        Inl e \<Rightarrow> Inl e
      | Inr pts \<Rightarrow> Inr (map (text_call h) pts))"
  using char_loop_eq [where h = h and c = 0 and str = str and x = x and y = y and sz = sz
      and xpos = 0 and s = "setColor color s"]
  by (cases "text_points h 0 str x y sz") (auto simp add: emitted_def drawText_def setColor_eq)

lemma drawCircle_emitted_any:
  "emitted (drawCircle x y radius color sides) s =
     (case drawCircle_vertices x y radius sides of
        Inl e \<Rightarrow> Inl e
      | Inr (n, a) \<Rightarrow>
          Inr (if 0 \<le> n
               then [\<lparr>dc_mode = GL_TRIANGLE_FAN, dc_vertices = take (nat n) (pairs a),
                      dc_color = spec_decode color\<rparr>]
               else []))"
  by (cases "drawCircle_vertices x y radius sides")
     (auto simp add: emitted_def drawCircle_def Let_def setColor_eq glDrawArrays_def
        glEnableClientState_VERTEX_ARRAY_def glDisableClientState_VERTEX_ARRAY_def
        glVertexPointer_2f_def)

lemma drawCircle_emitted:
  assumes "1 \<le> sides" and "sides \<le> 1073741821"
  shows "emitted (drawCircle x y radius color sides) s =
     Inr [\<lparr>dc_mode = GL_TRIANGLE_FAN,
           dc_vertices = (x, y) # map (rim_vertex x y radius sides) [1..<nat (sides + 2)],
           dc_color = spec_decode color\<rparr>]"
proof -
  let ?vs = "(x, y) # map (rim_vertex x y radius sides) [1..<nat (sides + 2)]"
  have "length ?vs = nat (sides + 2)"
    using assms by simp
  then have "take (nat (sides + 2)) ?vs = ?vs"
    by simp
  moreover have "pairs (circle_array x y radius sides) = ?vs"
    by (simp only: circle_array_def pairs_unzip)
  ultimately show ?thesis
    using assms
    by (simp add: drawCircle_emitted_any drawCircle_vertices_eq [OF assms])
qed

section \<open>drawCircle: the fan\<close>

text \<open>The rounding error of one coordinate \<^verbatim>\<open>x + (radius * cos(..))\<close>, whatever the
  angle: three roundings, of the cosine, of the product and of the sum.\<close>

lemma coord_error:
  assumes g: "\<bar>g\<bar> \<le> 1"
  shows "\<bar>f32 (x + f32 (r * f32 g)) - (x + r * g)\<bar> \<le> \<bar>x\<bar> / 2 ^ 24 + \<bar>r\<bar> / 2 ^ 21 + 1 / 2 ^ 148"
proof -
  define c where "c = f32 g"
  define p where "p = f32 (r * c)"
  define v where "v = f32 (x + p)"
  define R where "R = \<bar>r\<bar>"
  define rc where "rc = r * c"
  define rg where "rg = r * g"
  have R: "0 \<le> R"
    unfolding R_def by simp
  have "\<bar>g\<bar> / 2 ^ 24 \<le> 1 / 2 ^ 24"
    using g by (simp add: divide_right_mono)
  then have c1: "\<bar>c - g\<bar> \<le> 1 / 2 ^ 24 + 1 / 2 ^ 150"
    using f32_error [of g] unfolding c_def by linarith
  have small: "(1 :: real) / 2 ^ 24 + 1 / 2 ^ 150 \<le> 1"
    by simp
  have c2: "\<bar>c\<bar> \<le> 2"
    using c1 g small by linarith
  have "\<bar>rc\<bar> = R * \<bar>c\<bar>"
    unfolding rc_def R_def by (simp add: abs_mult)
  also have "\<dots> \<le> R * 2"
    using c2 R by (rule mult_left_mono)
  finally have rc2: "\<bar>rc\<bar> \<le> R * 2" .
  have "rc - rg = r * (c - g)"
    unfolding rc_def rg_def by (simp add: right_diff_distrib)
  then have "\<bar>rc - rg\<bar> = R * \<bar>c - g\<bar>"
    unfolding R_def by (simp add: abs_mult)
  also have "\<dots> \<le> R * (1 / 2 ^ 24 + 1 / 2 ^ 150)"
    using c1 R by (rule mult_left_mono)
  finally have rcg: "\<bar>rc - rg\<bar> \<le> R * (1 / 2 ^ 24 + 1 / 2 ^ 150)" .
  have p1: "\<bar>p - rc\<bar> \<le> \<bar>rc\<bar> / 2 ^ 24 + 1 / 2 ^ 150"
    unfolding p_def rc_def by (rule f32_error)
  have "\<bar>rc\<bar> / 2 ^ 24 \<le> R * 2 / 2 ^ 24"
    using rc2 by (rule divide_right_mono) simp
  with p1 have p2: "\<bar>p - rc\<bar> \<le> R * 2 / 2 ^ 24 + 1 / 2 ^ 150"
    by linarith
  have p3: "\<bar>p\<bar> \<le> R * 4 + 1 / 2 ^ 150"
  proof -
    have "R * 2 / 2 ^ 24 \<le> R * 2"
      using R by (simp add: field_simps)
    with p2 rc2 show ?thesis
      by linarith
  qed
  have v1: "\<bar>v - (x + p)\<bar> \<le> \<bar>x + p\<bar> / 2 ^ 24 + 1 / 2 ^ 150"
    unfolding v_def by (rule f32_error)
  have "\<bar>x + p\<bar> \<le> \<bar>x\<bar> + (R * 4 + 1 / 2 ^ 150)"
    using p3 by linarith
  then have "\<bar>x + p\<bar> / 2 ^ 24 \<le> (\<bar>x\<bar> + (R * 4 + 1 / 2 ^ 150)) / 2 ^ 24"
    by (rule divide_right_mono) simp
  with v1 have v2: "\<bar>v - (x + p)\<bar> \<le> (\<bar>x\<bar> + (R * 4 + 1 / 2 ^ 150)) / 2 ^ 24 + 1 / 2 ^ 150"
    by linarith
  have "\<bar>v - (x + rg)\<bar> \<le> \<bar>v - (x + p)\<bar> + \<bar>p - rc\<bar> + \<bar>rc - rg\<bar>"
    by linarith
  also have "\<dots> \<le> ((\<bar>x\<bar> + (R * 4 + 1 / 2 ^ 150)) / 2 ^ 24 + 1 / 2 ^ 150)
      + (R * 2 / 2 ^ 24 + 1 / 2 ^ 150) + R * (1 / 2 ^ 24 + 1 / 2 ^ 150)"
    using v2 p2 rcg by linarith
  also have "\<dots> \<le> \<bar>x\<bar> / 2 ^ 24 + R / 2 ^ 21 + 1 / 2 ^ 148"
    using R by (simp add: field_simps)
  finally show ?thesis
    unfolding v_def p_def rc_def rg_def c_def R_def .
qed

text \<open>The same bound for one rounding, of the sum computed without error.\<close>

lemma coord_error_wide:
  assumes g: "\<bar>g\<bar> \<le> 1"
  shows "\<bar>f32 (x + r * g) - (x + r * g)\<bar> \<le> \<bar>x\<bar> / 2 ^ 24 + \<bar>r\<bar> / 2 ^ 21 + 1 / 2 ^ 148"
proof -
  have "\<bar>r * g\<bar> = \<bar>r\<bar> * \<bar>g\<bar>"
    by (simp add: abs_mult)
  also have "\<dots> \<le> \<bar>r\<bar> * 1"
    using g by (intro mult_left_mono) simp_all
  finally have "\<bar>x + r * g\<bar> \<le> \<bar>x\<bar> + \<bar>r\<bar>"
    by linarith
  then have "\<bar>x + r * g\<bar> / 2 ^ 24 \<le> (\<bar>x\<bar> + \<bar>r\<bar>) / 2 ^ 24"
    by (rule divide_right_mono) simp
  moreover have "\<bar>f32 (x + r * g) - (x + r * g)\<bar> \<le> \<bar>x + r * g\<bar> / 2 ^ 24 + 1 / 2 ^ 150"
    by (rule f32_error)
  moreover have "(\<bar>x\<bar> + \<bar>r\<bar>) / 2 ^ 24 + 1 / 2 ^ 150 \<le> \<bar>x\<bar> / 2 ^ 24 + \<bar>r\<bar> / 2 ^ 21 + 1 / 2 ^ 148"
    by (simp add: field_simps)
  ultimately show ?thesis
    by linarith
qed

lemma dist_perturb:
  assumes "0 \<le> r" and "A\<^sup>2 + B\<^sup>2 = r\<^sup>2"
  shows "\<bar>sqrt ((A + ex)\<^sup>2 + (B + ey)\<^sup>2) - r\<bar> \<le> \<bar>ex\<bar> + \<bar>ey\<bar>"
proof -
  have s: "sqrt (A\<^sup>2 + B\<^sup>2) = r"
    using assms by simp
  have up: "sqrt ((A + ex)\<^sup>2 + (B + ey)\<^sup>2) \<le> sqrt (A\<^sup>2 + B\<^sup>2) + sqrt (ex\<^sup>2 + ey\<^sup>2)"
    by (rule real_sqrt_sum_squares_triangle_ineq)
  have "sqrt (((A + ex) + (- ex))\<^sup>2 + ((B + ey) + (- ey))\<^sup>2)
      \<le> sqrt ((A + ex)\<^sup>2 + (B + ey)\<^sup>2) + sqrt ((- ex)\<^sup>2 + (- ey)\<^sup>2)"
    by (rule real_sqrt_sum_squares_triangle_ineq)
  then have lo: "sqrt (A\<^sup>2 + B\<^sup>2) \<le> sqrt ((A + ex)\<^sup>2 + (B + ey)\<^sup>2) + sqrt (ex\<^sup>2 + ey\<^sup>2)"
    by simp
  have e: "sqrt (ex\<^sup>2 + ey\<^sup>2) \<le> \<bar>ex\<bar> + \<bar>ey\<bar>"
    by (rule sqrt_sum_squares_le_sum_abs)
  show ?thesis
    using up lo e unfolding s by linarith
qed

lemma rim_vertex_distance:
  assumes r: "0 \<le> radius"
  shows "\<bar>euclid (rim_vertex x y radius sides i) (x, y) - radius\<bar>
    \<le> (\<bar>x\<bar> + \<bar>y\<bar>) / 2 ^ 24 + radius / 2 ^ 20 + 1 / 2 ^ 147"
proof -
  define a where "a = rim_angle sides i"
  define vx where "vx = f32 (x + f32 (radius * f32 (cos a)))"
  define vy where "vy = f32 (y + f32 (radius * f32 (sin a)))"
  define ex where "ex = vx - (x + radius * cos a)"
  define ey where "ey = vy - (y + radius * sin a)"
  have ex: "\<bar>ex\<bar> \<le> \<bar>x\<bar> / 2 ^ 24 + \<bar>radius\<bar> / 2 ^ 21 + 1 / 2 ^ 148"
    unfolding ex_def vx_def by (rule coord_error) simp
  have ey: "\<bar>ey\<bar> \<le> \<bar>y\<bar> / 2 ^ 24 + \<bar>radius\<bar> / 2 ^ 21 + 1 / 2 ^ 148"
    unfolding ey_def vy_def by (rule coord_error) simp
  have "(radius * cos a)\<^sup>2 + (radius * sin a)\<^sup>2 = radius\<^sup>2 * ((cos a)\<^sup>2 + (sin a)\<^sup>2)"
    by (simp only: power_mult_distrib distrib_left)
  also have "\<dots> = radius\<^sup>2"
    by simp
  finally have sq: "(radius * cos a)\<^sup>2 + (radius * sin a)\<^sup>2 = radius\<^sup>2" .
  have d: "\<bar>sqrt ((radius * cos a + ex)\<^sup>2 + (radius * sin a + ey)\<^sup>2) - radius\<bar> \<le> \<bar>ex\<bar> + \<bar>ey\<bar>"
    using r sq by (rule dist_perturb)
  have "vx - x = radius * cos a + ex" and "vy - y = radius * sin a + ey"
    unfolding ex_def ey_def by simp_all
  then have "euclid (rim_vertex x y radius sides i) (x, y)
      = sqrt ((radius * cos a + ex)\<^sup>2 + (radius * sin a + ey)\<^sup>2)"
    unfolding euclid_def rim_vertex_def a_def [symmetric] vx_def [symmetric] vy_def [symmetric]
    by simp
  moreover have "\<bar>radius\<bar> = radius"
    using r by simp
  ultimately show ?thesis
    using d ex ey by (simp add: field_simps)
qed

text \<open>The rounded angle \<^verbatim>\<open>i * doublePi / sides\<close> against \<open>i * 2\<pi> / sides\<close>: relative
  errors through a product, a rounding and a quotient.\<close>

lemma rel_mult:
  fixes u1 u2 U1 U2 a1 a2 :: real
  assumes "0 \<le> U1" and "0 \<le> U2" and "\<bar>u1 - U1\<bar> \<le> a1 * U1" and "\<bar>u2 - U2\<bar> \<le> a2 * U2"
  shows "\<bar>u1 * u2 - U1 * U2\<bar> \<le> (a1 + a2 + a1 * a2) * (U1 * U2)"
proof -
  have "u1 * u2 - U1 * U2 = (u1 - U1) * U2 + U1 * (u2 - U2) + (u1 - U1) * (u2 - U2)"
    by (simp add: algebra_simps)
  then have "\<bar>u1 * u2 - U1 * U2\<bar>
      \<le> \<bar>(u1 - U1) * U2\<bar> + \<bar>U1 * (u2 - U2)\<bar> + \<bar>(u1 - U1) * (u2 - U2)\<bar>"
    by linarith
  also have "\<dots> = \<bar>u1 - U1\<bar> * U2 + U1 * \<bar>u2 - U2\<bar> + \<bar>u1 - U1\<bar> * \<bar>u2 - U2\<bar>"
    using assms(1, 2) by (simp add: abs_mult)
  also have "\<dots> \<le> (a1 * U1) * U2 + U1 * (a2 * U2) + (a1 * U1) * (a2 * U2)"
    using assms by (intro add_mono mult_right_mono mult_left_mono mult_mono) simp_all
  also have "\<dots> = (a1 + a2 + a1 * a2) * (U1 * U2)"
    by (simp add: algebra_simps)
  finally show ?thesis .
qed

lemma rel_round:
  fixes u U a :: real
  assumes "\<bar>u - U\<bar> \<le> a * U" and "0 \<le> a" and "a \<le> 1 / 2" and "1 / 2 ^ 125 \<le> U"
  shows "\<bar>f32 u - U\<bar> \<le> (a + (1 + a) / 2 ^ 24) * U"
proof -
  have "(0 :: real) < 1 / 2 ^ 125"
    by simp
  with assms(4) have U: "0 < U"
    by linarith
  have "a * U \<le> 1 / 2 * U"
    using assms(3) U by (intro mult_right_mono) simp_all
  with assms(1) have lo: "U / 2 \<le> u"
    by linarith
  have "1 / 2 ^ 126 = (1 / 2 ^ 125) / (2 :: real)"
    by simp
  also have "\<dots> \<le> U / 2"
    using assms(4) by (rule divide_right_mono) simp
  finally have "1 / 2 ^ 126 \<le> \<bar>u\<bar>"
    using lo by linarith
  then have "\<bar>f32 u - u\<bar> \<le> \<bar>u\<bar> / 2 ^ 24"
    by (rule f32_rel_error)
  moreover have "\<bar>u\<bar> \<le> U + a * U"
    using assms(1) U by linarith
  then have "\<bar>u\<bar> \<le> (1 + a) * U"
    by (simp add: algebra_simps)
  then have "\<bar>u\<bar> / 2 ^ 24 \<le> (1 + a) * U / 2 ^ 24"
    by (rule divide_right_mono) simp
  ultimately have "\<bar>f32 u - U\<bar> \<le> a * U + (1 + a) * U / 2 ^ 24"
    using assms(1) by linarith
  also have "\<dots> = (a + (1 + a) / 2 ^ 24) * U"
    by (simp add: algebra_simps)
  finally show ?thesis .
qed

lemma rel_div:
  fixes u w U W a b :: real
  assumes "0 \<le> U" and "0 < W" and "\<bar>u - U\<bar> \<le> a * U" and "\<bar>w - W\<bar> \<le> b * W"
    and "0 \<le> a" and "0 \<le> b" and "b \<le> 1 / 2"
  shows "\<bar>u / w - U / W\<bar> \<le> (2 * (a + b)) * (U / W)"
proof -
  have "b * W \<le> 1 / 2 * W"
    using assms(2, 7) by (intro mult_right_mono) simp_all
  with assms(4) have w: "W / 2 \<le> w"
    by linarith
  then have wpos: "0 < w"
    using assms(2) by linarith
  have "u / w - U / W = ((u - U) * W - U * (w - W)) / (w * W)"
    using wpos assms(2) by (simp add: field_simps)
  then have "\<bar>u / w - U / W\<bar> = \<bar>(u - U) * W - U * (w - W)\<bar> / (w * W)"
    using wpos assms(2) by (simp add: abs_mult)
  also have "\<dots> \<le> (\<bar>u - U\<bar> * W + U * \<bar>w - W\<bar>) / (w * W)"
  proof (rule divide_right_mono)
    have "\<bar>(u - U) * W - U * (w - W)\<bar> \<le> \<bar>(u - U) * W\<bar> + \<bar>U * (w - W)\<bar>"
      by linarith
    then show "\<bar>(u - U) * W - U * (w - W)\<bar> \<le> \<bar>u - U\<bar> * W + U * \<bar>w - W\<bar>"
      using assms(1, 2) by (simp add: abs_mult)
    show "0 \<le> w * W"
      using wpos assms(2) by simp
  qed
  also have "\<dots> \<le> ((a * U) * W + U * (b * W)) / (w * W)"
  proof (rule divide_right_mono)
    show "\<bar>u - U\<bar> * W + U * \<bar>w - W\<bar> \<le> (a * U) * W + U * (b * W)"
      using assms by (intro add_mono mult_right_mono mult_left_mono) simp_all
    show "0 \<le> w * W"
      using wpos assms(2) by simp
  qed
  also have "\<dots> = ((a + b) * U) * W / (w * W)"
    by (simp add: algebra_simps)
  also have "\<dots> = (a + b) * U / w"
    using assms(2) by simp
  also have "\<dots> \<le> (a + b) * U / (W / 2)"
  proof (rule divide_left_mono)
    show "W / 2 \<le> w"
      by (rule w)
    show "0 \<le> (a + b) * U"
      using assms by simp
    show "0 < w * (W / 2)"
      using wpos assms(2) by simp
  qed
  also have "\<dots> = (2 * (a + b)) * (U / W)"
    by simp
  finally show ?thesis .
qed

lemma doublePi_error: "\<bar>doublePi - 2 * pi\<bar> \<le> 1 / 2 ^ 24 * (2 * pi)"
proof -
  have "1 / 2 ^ 126 \<le> (4 :: real)"
    by simp
  also have "4 \<le> \<bar>2 * pi\<bar>"
    using pi_ge_two by simp
  finally have "\<bar>f32 (2 * pi) - 2 * pi\<bar> \<le> \<bar>2 * pi\<bar> / 2 ^ 24"
    by (rule f32_rel_error)
  then show ?thesis
    unfolding doublePi_def by simp
qed

lemma f32_real_error:
  assumes "1 \<le> z"
  shows "\<bar>f32 z - z\<bar> \<le> 1 / 2 ^ 24 * z"
proof -
  have "1 / 2 ^ 126 \<le> (1 :: real)"
    by simp
  also have "1 \<le> \<bar>z\<bar>"
    using assms by simp
  finally have "\<bar>f32 z - z\<bar> \<le> \<bar>z\<bar> / 2 ^ 24"
    by (rule f32_rel_error)
  then show ?thesis
    using assms by simp
qed

lemma rim_angle_error:
  assumes i: "1 \<le> i" "int i \<le> sides + 1" and n: "1 \<le> sides" "sides \<le> 1073741821"
  shows "\<bar>rim_angle sides i - real i * (2 * pi) / of_int sides\<bar> \<le> 1 / 2 ^ 16"
proof -
  define I where "I = real i"
  define N :: real where "N = of_int sides"
  define fi where "fi = f32 I"
  define fn where "fn = f32 N"
  define m where "m = f32 (fi * doublePi)"
  define q where "q = f32 (m / fn)"
  have "real_of_int (int i) \<le> real_of_int (sides + 1)"
    using i(2) by (simp only: of_int_le_iff)
  then have I: "1 \<le> I" "I \<le> N + 1"
    using i(1) unfolding I_def N_def by simp_all
  have N: "1 \<le> N" "N \<le> 1073741821"
    using n unfolding N_def by simp_all
  have P: "4 \<le> 2 * pi" "2 * pi \<le> 8"
    using pi_ge_two pi_less_4 by simp_all
  have fi: "\<bar>fi - I\<bar> \<le> 1 / 2 ^ 24 * I"
    unfolding fi_def using I(1) by (rule f32_real_error)
  have fn: "\<bar>fn - N\<bar> \<le> 1 / 2 ^ 24 * N"
    unfolding fn_def using N(1) by (rule f32_real_error)
  have IP: "4 \<le> I * (2 * pi)"
    using I(1) P(1) mult_mono [of 1 I 4 "2 * pi"] by simp
  have "\<bar>fi * doublePi - I * (2 * pi)\<bar> \<le> (1 / 2 ^ 24 + 1 / 2 ^ 24 + 1 / 2 ^ 24 * (1 / 2 ^ 24)) * (I * (2 * pi))"
    using I(1) P(1) fi doublePi_error by (intro rel_mult) simp_all
  also have "\<dots> \<le> 3 / 2 ^ 24 * (I * (2 * pi))"
    using IP by (intro mult_right_mono) simp_all
  finally have m0: "\<bar>fi * doublePi - I * (2 * pi)\<bar> \<le> 3 / 2 ^ 24 * (I * (2 * pi))" .
  have "\<bar>m - I * (2 * pi)\<bar> \<le> (3 / 2 ^ 24 + (1 + 3 / 2 ^ 24) / 2 ^ 24) * (I * (2 * pi))"
    unfolding m_def using m0 IP by (intro rel_round) simp_all
  also have "\<dots> \<le> 5 / 2 ^ 24 * (I * (2 * pi))"
    using IP by (intro mult_right_mono) simp_all
  finally have m: "\<bar>m - I * (2 * pi)\<bar> \<le> 5 / 2 ^ 24 * (I * (2 * pi))" .
  define A where "A = I * (2 * pi) / N"
  have A: "1 / 2 ^ 125 \<le> A" "A \<le> 16"
  proof -
    have "1 / 2 ^ 125 \<le> 4 / (1073741821 :: real)"
      by simp
    also have "\<dots> \<le> 4 / N"
      using N by (intro divide_left_mono) simp_all
    also have "\<dots> \<le> I * (2 * pi) / N"
      using IP N(1) by (intro divide_right_mono) simp_all
    finally show "1 / 2 ^ 125 \<le> A"
      unfolding A_def .
    have "I * (2 * pi) \<le> (N + 1) * 8"
      using I P by (intro mult_mono) simp_all
    also have "\<dots> \<le> 16 * N"
      using N(1) by simp
    finally show "A \<le> 16"
      unfolding A_def using N(1) by (simp add: field_simps)
  qed
  have "\<bar>m / fn - I * (2 * pi) / N\<bar> \<le> (2 * (5 / 2 ^ 24 + 1 / 2 ^ 24)) * (I * (2 * pi) / N)"
    using m fn IP N(1) by (intro rel_div) simp_all
  then have q0: "\<bar>m / fn - A\<bar> \<le> 12 / 2 ^ 24 * A"
    unfolding A_def by simp
  have "\<bar>q - A\<bar> \<le> (12 / 2 ^ 24 + (1 + 12 / 2 ^ 24) / 2 ^ 24) * A"
    unfolding q_def using q0 A(1) by (intro rel_round) simp_all
  also have "\<dots> \<le> 14 / 2 ^ 24 * A"
    using A(1) by (intro mult_right_mono) simp_all
  also have "\<dots> \<le> 14 / 2 ^ 24 * 16"
    using A(2) by (intro mult_left_mono) simp_all
  also have "\<dots> \<le> 1 / 2 ^ 16"
    by simp
  finally show ?thesis
    unfolding q_def m_def fi_def fn_def A_def I_def N_def rim_angle_def .
qed

lemma cos_lipschitz: "\<bar>cos a - cos b\<bar> \<le> \<bar>a - b\<bar>" for a b :: real
proof -
  have "\<bar>cos a - cos b\<bar> = 2 * \<bar>sin ((a + b) / 2)\<bar> * \<bar>sin ((b - a) / 2)\<bar>"
    unfolding cos_diff_cos by (simp add: abs_mult)
  also have "\<dots> \<le> 2 * 1 * \<bar>(b - a) / 2\<bar>"
    by (intro mult_mono abs_sin_x_le_abs_x) simp_all
  finally show ?thesis
    by simp
qed

lemma sin_lipschitz: "\<bar>sin a - sin b\<bar> \<le> \<bar>a - b\<bar>" for a b :: real
proof -
  have "\<bar>sin a - sin b\<bar> = 2 * \<bar>sin ((a - b) / 2)\<bar> * \<bar>cos ((a + b) / 2)\<bar>"
    unfolding sin_diff_sin by (simp add: abs_mult)
  also have "\<dots> \<le> 2 * \<bar>(a - b) / 2\<bar> * 1"
    by (intro mult_mono abs_sin_x_le_abs_x) simp_all
  finally show ?thesis
    by simp
qed

lemma coord_formula_error:
  assumes "\<bar>g - g'\<bar> \<le> 1 / 2 ^ 16" and "\<bar>g\<bar> \<le> 1"
  shows "\<bar>f32 (x + f32 (r * f32 g)) - (x + r * g')\<bar> \<le> \<bar>x\<bar> / 2 ^ 24 + \<bar>r\<bar> / 2 ^ 15 + 1 / 2 ^ 148"
proof -
  have e: "\<bar>f32 (x + f32 (r * f32 g)) - (x + r * g)\<bar> \<le> \<bar>x\<bar> / 2 ^ 24 + \<bar>r\<bar> / 2 ^ 21 + 1 / 2 ^ 148"
    using assms(2) by (rule coord_error)
  have "r * g - r * g' = r * (g - g')"
    by (simp add: right_diff_distrib)
  then have "\<bar>r * g - r * g'\<bar> = \<bar>r\<bar> * \<bar>g - g'\<bar>"
    by (simp add: abs_mult)
  also have "\<dots> \<le> \<bar>r\<bar> * (1 / 2 ^ 16)"
    using assms(1) by (intro mult_left_mono) simp_all
  finally have d: "\<bar>r * g - r * g'\<bar> \<le> \<bar>r\<bar> * (1 / 2 ^ 16)" .
  have "\<bar>r\<bar> / 2 ^ 21 + \<bar>r\<bar> * (1 / 2 ^ 16) \<le> \<bar>r\<bar> / 2 ^ 15"
    by simp
  with e d show ?thesis
    by linarith
qed

lemma rim_vertex_formula:
  assumes i: "1 \<le> i" "int i \<le> sides + 1" and n: "1 \<le> sides" "sides \<le> 1073741821"
  shows "\<bar>fst (rim_vertex x y radius sides i) - fst (spec_rim_vertex x y radius sides i)\<bar>
      \<le> \<bar>x\<bar> / 2 ^ 24 + \<bar>radius\<bar> / 2 ^ 15 + 1 / 2 ^ 148"
    and "\<bar>snd (rim_vertex x y radius sides i) - snd (spec_rim_vertex x y radius sides i)\<bar>
      \<le> \<bar>y\<bar> / 2 ^ 24 + \<bar>radius\<bar> / 2 ^ 15 + 1 / 2 ^ 148"
proof -
  have a: "\<bar>rim_angle sides i - real i * (2 * pi) / of_int sides\<bar> \<le> 1 / 2 ^ 16"
    using assms by (rule rim_angle_error)
  have "\<bar>cos (rim_angle sides i) - cos (real i * (2 * pi) / of_int sides)\<bar> \<le> 1 / 2 ^ 16"
    using a cos_lipschitz [of "rim_angle sides i" "real i * (2 * pi) / of_int sides"] by linarith
  then show "\<bar>fst (rim_vertex x y radius sides i) - fst (spec_rim_vertex x y radius sides i)\<bar>
      \<le> \<bar>x\<bar> / 2 ^ 24 + \<bar>radius\<bar> / 2 ^ 15 + 1 / 2 ^ 148"
    unfolding rim_vertex_def spec_rim_vertex_def fst_conv by (rule coord_formula_error) simp
  have "\<bar>sin (rim_angle sides i) - sin (real i * (2 * pi) / of_int sides)\<bar> \<le> 1 / 2 ^ 16"
    using a sin_lipschitz [of "rim_angle sides i" "real i * (2 * pi) / of_int sides"] by linarith
  then show "\<bar>snd (rim_vertex x y radius sides i) - snd (spec_rim_vertex x y radius sides i)\<bar>
      \<le> \<bar>y\<bar> / 2 ^ 24 + \<bar>radius\<bar> / 2 ^ 15 + 1 / 2 ^ 148"
    unfolding rim_vertex_def spec_rim_vertex_def snd_conv by (rule coord_formula_error) simp
qed

text \<open>Floats near \<open>10^8\<close> are 8 apart: a sum within 4 of \<open>10^8\<close> rounds to \<open>10^8\<close>.\<close>

lemma f32_far:
  assumes "\<bar>z - 100000000\<bar> < 4"
  shows "f32 z = 100000000"
proof -
  have "f32 z = of_int 12500000 * 2 powi (26 - 23)"
  proof (rule f32_near)
    show "2 powi 26 \<le> \<bar>z\<bar>" "\<bar>z\<bar> < 2 powi (26 + 1)"
      using assms by simp_all
    show "- 126 \<le> (26 :: int)"
      by simp
    have "\<bar>z / 8 - 12500000\<bar> < 1 / 2"
      using assms by linarith
    then show "\<bar>z / 2 powi (26 - 23) - real_of_int 12500000\<bar> < 1 / 2"
      by simp
  qed
  then show ?thesis
    by simp
qed

lemma coord_far:
  assumes "\<bar>g\<bar> \<le> 1"
  shows "f32 (100000000 + f32 (3 * f32 g)) = 100000000"
proof -
  define c where "c = f32 g"
  define p where "p = f32 (3 * c)"
  have "\<bar>g\<bar> / 2 ^ 24 \<le> 1 / 2 ^ 24"
    using assms by (simp add: divide_right_mono)
  moreover have "(1 :: real) + 1 / 2 ^ 24 + 1 / 2 ^ 150 \<le> 5 / 4"
    by simp
  ultimately have c: "\<bar>c\<bar> \<le> 5 / 4"
    using f32_error [of g] assms unfolding c_def by linarith
  then have c3: "\<bar>3 * c\<bar> \<le> 15 / 4"
    by linarith
  then have "\<bar>3 * c\<bar> / 2 ^ 24 \<le> (15 / 4) / 2 ^ 24"
    by (rule divide_right_mono) simp
  moreover have "\<bar>p - 3 * c\<bar> \<le> \<bar>3 * c\<bar> / 2 ^ 24 + 1 / 2 ^ 150"
    unfolding p_def by (rule f32_error)
  moreover have "(15 / 4 :: real) + (15 / 4) / 2 ^ 24 + 1 / 2 ^ 150 < 4"
    by simp
  ultimately have "\<bar>p\<bar> < 4"
    using c3 by linarith
  then have "\<bar>(100000000 + p) - 100000000\<bar> < 4"
    by simp
  then show ?thesis
    unfolding p_def c_def by (rule f32_far)
qed

lemma rim_vertex_far: "rim_vertex 100000000 100000000 3 sides i = (100000000, 100000000)"
  unfolding rim_vertex_def by (simp add: coord_far)

lemma spec_rim_vertex_far: "spec_rim_vertex 100000000 100000000 3 360 1 \<noteq> (100000000, 100000000)"
proof -
  have "2 * pi / 360 < pi / 2"
    using pi_gt_zero by simp
  then have "0 < cos (2 * pi / 360)"
    using pi_gt_zero by (intro cos_gt_zero) simp_all
  then show ?thesis
    by (simp add: spec_rim_vertex_def)
qed

text \<open>Bounds on \<open>\<pi>\<close>, from Machin's formula and the alternating series of \<open>arctan\<close>.\<close>

lemma arctan_bounds:
  fixes x :: real
  assumes "0 \<le> x" and "x \<le> 1"
  shows "(\<Sum>i<2 * n. (- 1) ^ i * (1 / real (i * 2 + 1) * x ^ (i * 2 + 1))) \<le> arctan x"
    and "arctan x \<le> (\<Sum>i<2 * n + 1. (- 1) ^ i * (1 / real (i * 2 + 1) * x ^ (i * 2 + 1)))"
proof -
  let ?a = "\<lambda>n. 1 / real (n * 2 + 1) * x ^ (n * 2 + 1)"
  have z: "?a \<longlonglongrightarrow> 0"
    using assms by (intro zeroseq_arctan_series) simp
  have p: "0 \<le> ?a k" for k
    using assms by simp
  have m: "?a (Suc k) \<le> ?a k" for k
  proof -
    have "x ^ (Suc k * 2 + 1) \<le> x ^ (k * 2 + 1)"
      using assms by (intro power_decreasing) simp_all
    moreover have "1 / real (Suc k * 2 + 1) \<le> 1 / real (k * 2 + 1)"
      by (intro divide_left_mono) simp_all
    ultimately show ?thesis
      using assms by (intro mult_mono) simp_all
  qed
  have s: "arctan x = (\<Sum>k. (- 1) ^ k * ?a k)"
    using assms by (intro arctan_series) simp
  show "(\<Sum>i<2 * n. (- 1) ^ i * ?a i) \<le> arctan x"
    unfolding s by (rule summable_Leibniz'(2) [OF z p m])
  show "arctan x \<le> (\<Sum>i<2 * n + 1. (- 1) ^ i * ?a i)"
    unfolding s by (rule summable_Leibniz'(4) [OF z p m])
qed

lemma pi_bounds: "314159263 / 100000000 < pi" "pi < 314159267 / 100000000"
proof -
  have l5: "(\<Sum>i<2 * 3. (- 1) ^ i * (1 / real (i * 2 + 1) * (1 / 5) ^ (i * 2 + 1))) \<le> arctan (1 / 5)"
    by (rule arctan_bounds) simp_all
  have u5: "arctan (1 / 5) \<le> (\<Sum>i<2 * 3 + 1. (- 1) ^ i * (1 / real (i * 2 + 1) * (1 / 5) ^ (i * 2 + 1)))"
    by (rule arctan_bounds) simp_all
  have l239: "(\<Sum>i<2 * 1. (- 1) ^ i * (1 / real (i * 2 + 1) * (1 / 239) ^ (i * 2 + 1))) \<le> arctan (1 / 239)"
    by (rule arctan_bounds) simp_all
  have u239: "arctan (1 / 239) \<le> (\<Sum>i<2 * 1 + 1. (- 1) ^ i * (1 / real (i * 2 + 1) * (1 / 239) ^ (i * 2 + 1)))"
    by (rule arctan_bounds) simp_all
  have p: "pi = 16 * arctan (1 / 5) - 4 * arctan (1 / 239)"
    using machin by simp
  have "(314159263 / 100000000 :: real)
      < 16 * (\<Sum>i<2 * 3. (- 1) ^ i * (1 / real (i * 2 + 1) * (1 / 5) ^ (i * 2 + 1)))
        - 4 * (\<Sum>i<2 * 1 + 1. (- 1) ^ i * (1 / real (i * 2 + 1) * (1 / 239) ^ (i * 2 + 1)))"
    by (simp add: eval_nat_numeral)
  with l5 u239 show "314159263 / 100000000 < pi"
    unfolding p by linarith
  have "16 * (\<Sum>i<2 * 3 + 1. (- 1) ^ i * (1 / real (i * 2 + 1) * (1 / 5) ^ (i * 2 + 1)))
        - 4 * (\<Sum>i<2 * 1. (- 1) ^ i * (1 / real (i * 2 + 1) * (1 / 239) ^ (i * 2 + 1)))
      < (314159267 / 100000000 :: real)"
    by (simp add: eval_nat_numeral)
  with u5 l239 show "pi < 314159267 / 100000000"
    unfolding p by linarith
qed

text \<open>\<open>doublePi\<close> is the float \<open>13176795 / 2^21 = 6.2831854820251465\<close>, above \<open>2\<pi>\<close>. In a
  fan of four sides the angle of vertex 1 is \<open>doublePi / 4\<close>, that of vertex 5 the float
  \<open>8235497 / 2^20\<close>: the first is less than \<open>5.6 * 10^-8\<close> above \<open>\<pi> / 2\<close>, the second
  more than \<open>2.9 * 10^-7\<close> above \<open>5\<pi> / 2\<close>, and the cosines differ.\<close>

lemma doublePi_eq: "doublePi = 13176795 / 2097152"
proof -
  have "f32 (2 * pi) = of_int 13176795 * 2 powi (2 - 23)"
  proof (rule f32_near)
    show "2 powi 2 \<le> \<bar>2 * pi\<bar>"
      using pi_ge_two by simp
    show "\<bar>2 * pi\<bar> < 2 powi (2 + 1)"
      using pi_less_4 by simp
    show "- 126 \<le> (2 :: int)"
      by simp
    have "\<bar>2 * pi * 2097152 - 13176795\<bar> < 1 / 2"
      using pi_bounds by linarith
    then show "\<bar>2 * pi / 2 powi (2 - 23) - real_of_int 13176795\<bar> < 1 / 2"
      by (simp add: power_int_minus_divide)
  qed
  then show ?thesis
    unfolding doublePi_def by (simp add: power_int_minus_divide)
qed

lemma f32_one: "f32 1 = 1"
  using f32_of_int [of 1] by simp

lemma f32_four: "f32 4 = 4"
  using f32_of_int [of 4] by simp

lemma f32_five: "f32 5 = 5"
  using f32_of_int [of 5] by simp

lemma f32_doublePi: "f32 (13176795 / 2097152) = 13176795 / 2097152"
proof -
  have "f32 (13176795 / 2097152) = of_int 13176795 * 2 powi (2 - 23)"
    by (rule f32_near) (simp_all add: power_int_minus_divide)
  then show ?thesis
    by (simp add: power_int_minus_divide)
qed

lemma rim_angle_4_1: "rim_angle 4 1 = 13176795 / 8388608"
proof -
  have "f32 (13176795 / 8388608) = of_int 13176795 * 2 powi (0 - 23)"
    by (rule f32_near) (simp_all add: power_int_minus_divide)
  then have "f32 (13176795 / 8388608) = 13176795 / 8388608"
    by (simp add: power_int_minus_divide)
  then show ?thesis
    by (simp add: rim_angle_def doublePi_eq f32_one f32_four f32_doublePi)
qed

lemma rim_angle_4_5: "rim_angle 4 5 = 8235497 / 1048576"
proof -
  have "f32 (65883975 / 2097152) = of_int 16470994 * 2 powi (4 - 23)"
    by (rule f32_near) (simp_all add: power_int_minus_divide)
  then have a: "f32 (65883975 / 2097152) = 8235497 / 262144"
    by (simp add: power_int_minus_divide)
  have "f32 (8235497 / 1048576) = of_int 16470994 * 2 powi (2 - 23)"
    by (rule f32_near) (simp_all add: power_int_minus_divide)
  then have b: "f32 (8235497 / 1048576) = 8235497 / 1048576"
    by (simp add: power_int_minus_divide)
  show ?thesis
    by (simp add: rim_angle_def doublePi_eq f32_five f32_four a b)
qed

lemma sin_half:
  fixes d :: real
  assumes "0 \<le> d" and "d \<le> 1 / 1000000"
  shows "d / 2 \<le> sin d" and "sin d \<le> d"
proof -
  show "sin d \<le> d"
    using assms(1) by (rule sin_x_le_x)
  have "\<bar>sin d - (\<Sum>m<3. sin_coeff m * d ^ m)\<bar> \<le> inverse (fact 3) * \<bar>d\<bar> ^ 3"
    by (rule Maclaurin_sin_bound)
  then have m: "\<bar>sin d - d\<bar> \<le> d ^ 3 / 6"
    using assms(1) by (simp add: sin_coeff_def eval_nat_numeral)
  have "d ^ 2 \<le> (1 / 1000000) ^ 2"
    using assms by (intro power_mono) simp_all
  also have "\<dots> \<le> 3"
    by (simp add: power2_eq_square)
  finally have "d * d ^ 2 \<le> d * 3"
    using assms(1) by (intro mult_left_mono) simp_all
  moreover have "d ^ 3 = d * d ^ 2"
    by (simp add: eval_nat_numeral)
  ultimately have "d ^ 3 \<le> d * 3"
    by (simp only:)
  with m show "d / 2 \<le> sin d"
    by linarith
qed

lemma f32_step:
  assumes "lo \<le> \<bar>z\<bar>" and "\<bar>z\<bar> \<le> hi" and "1 / 1000000000 \<le> lo" and "hi \<le> 1 / 100"
  shows "lo - 1 / 1000000000 \<le> \<bar>f32 z\<bar>" and "\<bar>f32 z\<bar> \<le> hi + 1 / 1000000000"
proof -
  have "(1 :: real) / 2 ^ 126 \<le> 1 / 1000000000"
    by simp
  with assms have "1 / 2 ^ 126 \<le> \<bar>z\<bar>"
    by linarith
  then have e: "\<bar>f32 z - z\<bar> \<le> \<bar>z\<bar> / 2 ^ 24"
    by (rule f32_rel_error)
  have "\<bar>z\<bar> / 2 ^ 24 \<le> (1 / 100) / 2 ^ 24"
    using assms(2, 4) by (intro divide_right_mono) simp_all
  also have "\<dots> \<le> 1 / 1000000000"
    by simp
  finally have "\<bar>f32 z - z\<bar> \<le> 1 / 1000000000"
    using e by linarith
  then show "lo - 1 / 1000000000 \<le> \<bar>f32 z\<bar>" and "\<bar>f32 z\<bar> \<le> hi + 1 / 1000000000"
    using assms(1, 2) by linarith+
qed

lemma f32_thrice:
  assumes "lo \<le> \<bar>z\<bar>" and "\<bar>z\<bar> \<le> hi" and "3 / 1000000000 \<le> lo" and "hi \<le> 1 / 1000"
  shows "lo - 3 / 1000000000 \<le> \<bar>f32 (f32 (f32 z))\<bar>"
    and "\<bar>f32 (f32 (f32 z))\<bar> \<le> hi + 3 / 1000000000"
proof -
  have a: "lo - 1 / 1000000000 \<le> \<bar>f32 z\<bar>" "\<bar>f32 z\<bar> \<le> hi + 1 / 1000000000"
    using assms by (intro f32_step [of lo z hi]; linarith)+
  have b: "lo - 1 / 1000000000 - 1 / 1000000000 \<le> \<bar>f32 (f32 z)\<bar>"
    "\<bar>f32 (f32 z)\<bar> \<le> hi + 1 / 1000000000 + 1 / 1000000000"
    using assms a
    by (intro f32_step [of "lo - 1 / 1000000000" "f32 z" "hi + 1 / 1000000000"]; linarith)+
  have c: "lo - 1 / 1000000000 - 1 / 1000000000 - 1 / 1000000000 \<le> \<bar>f32 (f32 (f32 z))\<bar>"
    "\<bar>f32 (f32 (f32 z))\<bar> \<le> hi + 1 / 1000000000 + 1 / 1000000000 + 1 / 1000000000"
    using assms b
    by (intro f32_step [of "lo - 1 / 1000000000 - 1 / 1000000000" "f32 (f32 z)"
          "hi + 1 / 1000000000 + 1 / 1000000000"]; linarith)+
  from c show "lo - 3 / 1000000000 \<le> \<bar>f32 (f32 (f32 z))\<bar>"
    and "\<bar>f32 (f32 (f32 z))\<bar> \<le> hi + 3 / 1000000000"
    by linarith+
qed

lemma cos_near_half_pi:
  fixes a :: real
  assumes "pi / 2 \<le> a" and "a \<le> pi / 2 + 1 / 1000000"
  shows "a - pi / 2 \<le> 2 * \<bar>cos a\<bar>" and "\<bar>cos a\<bar> \<le> a - pi / 2"
proof -
  define d where "d = a - pi / 2"
  have d: "0 \<le> d" "d \<le> 1 / 1000000"
    using assms unfolding d_def by linarith+
  have "cos a = cos (pi / 2 + d)"
    unfolding d_def by simp
  also have "\<dots> = - sin d"
    by (simp add: cos_add)
  finally have c: "cos a = - sin d" .
  have s: "d / 2 \<le> sin d" "sin d \<le> d"
    using d by (rule sin_half)+
  show "a - pi / 2 \<le> 2 * \<bar>cos a\<bar>" and "\<bar>cos a\<bar> \<le> a - pi / 2"
    unfolding c d_def [symmetric] using s d by linarith+
qed

lemma rim_4_first: "\<bar>fst (rim_vertex 0 0 1 4 1)\<bar> \<le> 59 / 1000000000"
proof -
  define a :: real where "a = 13176795 / 8388608"
  have a: "pi / 2 \<le> a" "a \<le> pi / 2 + 1 / 1000000"
    and d: "34 / 1000000000 \<le> a - pi / 2" "a - pi / 2 \<le> 56 / 1000000000"
    unfolding a_def using pi_bounds by linarith+
  have c: "a - pi / 2 \<le> 2 * \<bar>cos a\<bar>" "\<bar>cos a\<bar> \<le> a - pi / 2"
    using a by (rule cos_near_half_pi)+
  have "\<bar>f32 (f32 (f32 (cos a)))\<bar> \<le> 56 / 1000000000 + 3 / 1000000000"
    using c d by (intro f32_thrice(2) [of "17 / 1000000000"]) linarith+
  then show ?thesis
    unfolding rim_vertex_def rim_angle_4_1 a_def by simp
qed

lemma rim_4_last: "145 / 1000000000 \<le> \<bar>fst (rim_vertex 0 0 1 4 5)\<bar>"
proof -
  define a :: real where "a = 8235497 / 1048576 - 2 * pi"
  have a: "pi / 2 \<le> a" "a \<le> pi / 2 + 1 / 1000000"
    and d: "296 / 1000000000 \<le> a - pi / 2" "a - pi / 2 \<le> 400 / 1000000000"
    unfolding a_def using pi_bounds by linarith+
  have c: "a - pi / 2 \<le> 2 * \<bar>cos a\<bar>" "\<bar>cos a\<bar> \<le> a - pi / 2"
    using a by (rule cos_near_half_pi)+
  have "cos (8235497 / 1048576) = cos (a + 2 * pi)"
    unfolding a_def by simp
  also have "\<dots> = cos a"
    by (rule cos_periodic)
  finally have p: "cos (8235497 / 1048576) = cos a" .
  have "148 / 1000000000 - 3 / 1000000000 \<le> \<bar>f32 (f32 (f32 (cos a)))\<bar>"
    using c d by (intro f32_thrice(1) [of _ _ "400 / 1000000000"]) linarith+
  then show ?thesis
    unfolding rim_vertex_def rim_angle_4_5 p by simp
qed

lemma rim_4_open: "rim_vertex 0 0 1 4 5 \<noteq> rim_vertex 0 0 1 4 1"
proof
  assume "rim_vertex 0 0 1 4 5 = rim_vertex 0 0 1 4 1"
  then have "\<bar>fst (rim_vertex 0 0 1 4 5)\<bar> = \<bar>fst (rim_vertex 0 0 1 4 1)\<bar>"
    by simp
  with rim_4_first rim_4_last show False
    by linarith
qed

lemma abs_close: "\<bar>a - c\<bar> \<le> t \<Longrightarrow> \<bar>b - c\<bar> \<le> t \<Longrightarrow> \<bar>a - b\<bar> \<le> 2 * t" for a b c t :: real
  by linarith

lemma rim_closes:
  "1 \<le> sides \<Longrightarrow> spec_rim_vertex x y radius sides (nat (sides + 1)) = spec_rim_vertex x y radius sides 1"
proof -
  assume s: "1 \<le> sides"
  have "real (nat (sides + 1)) = of_int sides + 1"
    using s by simp
  then have "real (nat (sides + 1)) * (2 * pi) / of_int sides = 1 * (2 * pi) / of_int sides + 2 * pi"
    using s by (simp add: field_simps)
  then show ?thesis
    by (simp add: spec_rim_vertex_def)
qed

lemma fan_nth:
  "1 \<le> i \<Longrightarrow> int i \<le> sides + 1 \<Longrightarrow>
   ((x, y) # map (rim_vertex x y radius sides) [1..<nat (sides + 2)]) ! i =
     rim_vertex x y radius sides i"
proof -
  assume i: "1 \<le> i" "int i \<le> sides + 1"
  then obtain k where k: "i = Suc k"
    by (cases i) simp_all
  have "k < nat (sides + 2) - 1"
    using i k by linarith
  then show ?thesis
    unfolding k by simp
qed

lemma drawCircle_far:
  "emitted (drawCircle 100000000 100000000 3 color 360) s =
     Inr [\<lparr>dc_mode = GL_TRIANGLE_FAN, dc_vertices = replicate 362 (100000000, 100000000),
           dc_color = spec_decode color\<rparr>]"
proof -
  have "rim_vertex 100000000 100000000 3 360 = (\<lambda>i. (100000000, 100000000))"
    by (rule ext) (rule rim_vertex_far)
  then have "(100000000, 100000000) # map (rim_vertex 100000000 100000000 3 360) [1..<nat (360 + 2)]
      = (100000000 :: real, 100000000 :: real) # replicate 361 (100000000, 100000000)"
    by (simp add: map_replicate_const)
  also have "\<dots> = replicate (Suc 361) (100000000, 100000000)"
    by (simp only: replicate.simps)
  also have "Suc 361 = 362"
    by simp
  finally show ?thesis
    by (simp add: drawCircle_emitted)
qed

lemma drawCircle_vertices_overflow:
  assumes "1073741822 \<le> sides"
  shows "drawCircle_vertices x y radius sides = Inl SignedOverflow"
proof (cases "sides \<le> 2147483645")
  case False
  then have "int_add sides 2 = Inl SignedOverflow"
    by (simp add: int_add_def INT_MAX_def)
  then show ?thesis
    by (simp add: drawCircle_vertices_def)
next
  case True
  let ?n = "sides + 2"
  have a: "int_add sides 2 = Inr ?n"
    using assms True by (simp add: int_add_def INT_MAX_def INT_MIN_def)
  have b: "new_GLfloat ?n = Inr (replicate (nat ?n) 0)"
    using assms by (simp add: new_GLfloat_def)
  have c: "store (replicate (nat ?n) 0) 0 v = Inr ((replicate (nat ?n) 0)[0 := v])" for v :: real
    using assms by (simp add: store_def)
  have d: "\<exists>vx vy. drawCircle_rim 1 ?n x y radius sides ((replicate (nat ?n) 0)[0 := x])
             ((replicate (nat ?n) 0)[0 := y]) = Inr (vx, vy)"
    using assms by (subst drawCircle_rim_eq) simp_all
  have e: "int_mul ?n 2 = Inl SignedOverflow"
    using assms by (simp add: int_mul_def INT_MAX_def INT_MIN_def)
  from d obtain vx vy where d': "drawCircle_rim 1 ?n x y radius sides ((replicate (nat ?n) 0)[0 := x])
             ((replicate (nat ?n) 0)[0 := y]) = Inr (vx, vy)"
    by blast
  show ?thesis
    by (simp only: drawCircle_vertices_def a b c d' e sum.case prod.case)
qed

lemma drawCircle_vertices_zero: "drawCircle_vertices x y radius 0 = Inl DivisionByZero"
  by (simp add: drawCircle_vertices_def int_add_def INT_MAX_def INT_MIN_def new_GLfloat_def
      store_def drawCircle_rim.simps)

text \<open>C1, as amended. For every centre \<open>(x, y)\<close>, every radius \<open>r > 0\<close> and every side
  count \<open>n\<close> with \<open>3 \<le> n \<le> 1073741821\<close>, \<^verbatim>\<open>drawCircle\<close> draws one triangle fan of
  exactly \<open>n + 2\<close> vertices; vertex 0 is the centre, and every rim vertex (indices 1 to
  \<open>n + 1\<close>) lies at Euclidean distance \<open>r\<close> from the centre up to the rounding of single
  precision: the distance differs from \<open>r\<close> by at most
  \<open>(\<bar>x\<bar> + \<bar>y\<bar>) / 2^24 + r / 2^20 + 1 / 2^147\<close>. The upper bound on \<open>n\<close> is the largest for
  which \<open>n + 2\<close> and \<open>(n + 2) * 2\<close> are 32-bit \<^verbatim>\<open>int\<close>s; \<open>\<bar>x\<bar> + r\<close> and \<open>\<bar>y\<bar> + r\<close> are at
  most \<open>2^127\<close>, so that no sum overflows the floats.\<close>

theorem drawCircle_fan:
  "0 < radius \<Longrightarrow> 3 \<le> sides \<Longrightarrow> sides \<le> 1073741821 \<Longrightarrow>
   \<bar>x\<bar> + radius \<le> 2 ^ 127 \<Longrightarrow> \<bar>y\<bar> + radius \<le> 2 ^ 127 \<Longrightarrow>
   \<exists>vs. emitted (drawCircle x y radius color sides) s =
          Inr [\<lparr>dc_mode = GL_TRIANGLE_FAN, dc_vertices = vs, dc_color = spec_decode color\<rparr>]
      \<and> int (length vs) = sides + 2
      \<and> vs ! 0 = (x, y)
      \<and> (\<forall>i. 1 \<le> i \<and> int i \<le> sides + 1 \<longrightarrow>
            \<bar>euclid (vs ! i) (x, y) - radius\<bar>
              \<le> (\<bar>x\<bar> + \<bar>y\<bar>) / 2 ^ 24 + radius / 2 ^ 20 + 1 / 2 ^ 147)"
proof -
  assume r: "0 < radius" and n: "3 \<le> sides" "sides \<le> 1073741821"
  let ?vs = "(x, y) # map (rim_vertex x y radius sides) [1..<nat (sides + 2)]"
  have "emitted (drawCircle x y radius color sides) s =
      Inr [\<lparr>dc_mode = GL_TRIANGLE_FAN, dc_vertices = ?vs, dc_color = spec_decode color\<rparr>]"
    using n by (intro drawCircle_emitted) simp_all
  moreover have "int (length ?vs) = sides + 2"
    using n by simp
  moreover have "?vs ! 0 = (x, y)"
    by simp
  moreover have "\<forall>i. 1 \<le> i \<and> int i \<le> sides + 1 \<longrightarrow>
      \<bar>euclid (?vs ! i) (x, y) - radius\<bar> \<le> (\<bar>x\<bar> + \<bar>y\<bar>) / 2 ^ 24 + radius / 2 ^ 20 + 1 / 2 ^ 147"
  proof (intro allI impI)
    fix i
    assume "1 \<le> i \<and> int i \<le> sides + 1"
    then have "?vs ! i = rim_vertex x y radius sides i"
      by (intro fan_nth) simp_all
    moreover have "\<bar>euclid (rim_vertex x y radius sides i) (x, y) - radius\<bar>
        \<le> (\<bar>x\<bar> + \<bar>y\<bar>) / 2 ^ 24 + radius / 2 ^ 20 + 1 / 2 ^ 147"
      using r by (intro rim_vertex_distance) simp
    ultimately show "\<bar>euclid (?vs ! i) (x, y) - radius\<bar>
        \<le> (\<bar>x\<bar> + \<bar>y\<bar>) / 2 ^ 24 + radius / 2 ^ 20 + 1 / 2 ^ 147"
      by (simp only:)
  qed
  ultimately show ?thesis
    by blast
qed

text \<open>The hypotheses of C1 hold for the unit circle with four sides.\<close>

theorem drawCircle_fan_witness:
  "0 < (1 :: real) \<and> (3 :: int) \<le> 4 \<and> (4 :: int) \<le> 1073741821
   \<and> \<bar>0 :: real\<bar> + 1 \<le> 2 ^ 127 \<and>
   (\<exists>vs. emitted (drawCircle 0 0 1 0xFF0000 4) gl_initial =
          Inr [\<lparr>dc_mode = GL_TRIANGLE_FAN, dc_vertices = vs, dc_color = spec_decode 0xFF0000\<rparr>]
      \<and> int (length vs) = 4 + 2
      \<and> vs ! 0 = (0, 0)
      \<and> (\<forall>i. 1 \<le> i \<and> int i \<le> 4 + 1 \<longrightarrow>
            \<bar>euclid (vs ! i) (0, 0) - 1\<bar> \<le> (\<bar>0\<bar> + \<bar>0\<bar>) / 2 ^ 24 + 1 / 2 ^ 20 + 1 / 2 ^ 147))"
  using drawCircle_fan [of 1 4 0 0 "0xFF0000" gl_initial] by simp

text \<open>C1 as stated fails. With radius 1 and 1073741822 sides \<open>numberOfVertices * 2\<close>
  overflows, with 2147483647 sides \<open>sides + 2\<close> does; no vertex is generated. And with
  the centre \<open>(10^8, 10^8)\<close>, radius 3 and 360 sides every one of the 361 rim vertices is
  the centre itself, at distance 0 and not 3: the floats near \<open>10^8\<close> are 8 apart, and
  \<^verbatim>\<open>x + radius * cos(..)\<close> rounds back to \<open>x\<close>.\<close>

theorem drawCircle_fan_fails:
  "emitted (drawCircle 0 0 1 0xFFFFFF 1073741822) gl_initial = Inl SignedOverflow
   \<and> emitted (drawCircle 0 0 1 0xFFFFFF 2147483647) gl_initial = Inl SignedOverflow
   \<and> emitted (drawCircle 100000000 100000000 3 0xFFFFFF 360) gl_initial =
       Inr [\<lparr>dc_mode = GL_TRIANGLE_FAN, dc_vertices = replicate 362 (100000000, 100000000),
             dc_color = spec_decode 0xFFFFFF\<rparr>]
   \<and> euclid (100000000, 100000000) (100000000, 100000000) = 0"
proof (intro conjI)
  show "emitted (drawCircle 0 0 1 0xFFFFFF 1073741822) gl_initial = Inl SignedOverflow"
    by (simp add: drawCircle_emitted_any drawCircle_vertices_overflow)
  show "emitted (drawCircle 0 0 1 0xFFFFFF 2147483647) gl_initial = Inl SignedOverflow"
    by (simp add: drawCircle_emitted_any drawCircle_vertices_overflow)
  show "emitted (drawCircle 100000000 100000000 3 0xFFFFFF 360) gl_initial =
       Inr [\<lparr>dc_mode = GL_TRIANGLE_FAN, dc_vertices = replicate 362 (100000000, 100000000),
             dc_color = spec_decode 0xFFFFFF\<rparr>]"
    by (rule drawCircle_far)
  show "euclid (100000000, 100000000) (100000000, 100000000) = 0"
    by (simp add: euclid_def)
qed

text \<open>C2, as amended. For every side count \<open>n\<close> with \<open>1 \<le> n \<le> 1073741821\<close> (and
  \<open>\<bar>x\<bar> + \<bar>r\<bar>\<close>, \<open>\<bar>y\<bar> + \<bar>r\<bar>\<close> at most \<open>2^127\<close>), rim vertex \<open>i\<close> of the fan
  (\<open>1 \<le> i \<le> n + 1\<close>) is \<open>(x + r * cos (i * 2\<pi> / n), y + r * sin (i * 2\<pi> / n))\<close> up to the
  rounding of single precision: each coordinate differs from the formula by at most
  \<open>\<bar>x\<bar> / 2^24 + \<bar>r\<bar> / 2^15 + 1 / 2^148\<close> (\<open>\<bar>y\<bar>\<close> for the second). The last rim vertex, at
  index \<open>n + 1\<close>, coincides with the first, at index 1, up to twice that bound.\<close>

theorem drawCircle_rim_formula:
  "1 \<le> sides \<Longrightarrow> sides \<le> 1073741821 \<Longrightarrow>
   \<bar>x\<bar> + \<bar>radius\<bar> \<le> 2 ^ 127 \<Longrightarrow> \<bar>y\<bar> + \<bar>radius\<bar> \<le> 2 ^ 127 \<Longrightarrow>
   \<exists>vs. emitted (drawCircle x y radius color sides) s =
          Inr [\<lparr>dc_mode = GL_TRIANGLE_FAN, dc_vertices = vs, dc_color = spec_decode color\<rparr>]
      \<and> (\<forall>i. 1 \<le> i \<and> int i \<le> sides + 1 \<longrightarrow>
            \<bar>fst (vs ! i) - fst (spec_rim_vertex x y radius sides i)\<bar>
              \<le> \<bar>x\<bar> / 2 ^ 24 + \<bar>radius\<bar> / 2 ^ 15 + 1 / 2 ^ 148
          \<and> \<bar>snd (vs ! i) - snd (spec_rim_vertex x y radius sides i)\<bar>
              \<le> \<bar>y\<bar> / 2 ^ 24 + \<bar>radius\<bar> / 2 ^ 15 + 1 / 2 ^ 148)
      \<and> \<bar>fst (vs ! nat (sides + 1)) - fst (vs ! 1)\<bar>
           \<le> 2 * (\<bar>x\<bar> / 2 ^ 24 + \<bar>radius\<bar> / 2 ^ 15 + 1 / 2 ^ 148)
      \<and> \<bar>snd (vs ! nat (sides + 1)) - snd (vs ! 1)\<bar>
           \<le> 2 * (\<bar>y\<bar> / 2 ^ 24 + \<bar>radius\<bar> / 2 ^ 15 + 1 / 2 ^ 148)"
proof -
  assume n: "1 \<le> sides" "sides \<le> 1073741821"
  let ?vs = "(x, y) # map (rim_vertex x y radius sides) [1..<nat (sides + 2)]"
  let ?tx = "\<bar>x\<bar> / 2 ^ 24 + \<bar>radius\<bar> / 2 ^ 15 + 1 / 2 ^ 148"
  let ?ty = "\<bar>y\<bar> / 2 ^ 24 + \<bar>radius\<bar> / 2 ^ 15 + 1 / 2 ^ 148"
  have e: "emitted (drawCircle x y radius color sides) s =
      Inr [\<lparr>dc_mode = GL_TRIANGLE_FAN, dc_vertices = ?vs, dc_color = spec_decode color\<rparr>]"
    using n by (rule drawCircle_emitted)
  have nth: "\<bar>fst (?vs ! i) - fst (spec_rim_vertex x y radius sides i)\<bar> \<le> ?tx
      \<and> \<bar>snd (?vs ! i) - snd (spec_rim_vertex x y radius sides i)\<bar> \<le> ?ty"
    if "1 \<le> i \<and> int i \<le> sides + 1" for i
  proof -
    have "?vs ! i = rim_vertex x y radius sides i"
      using that by (intro fan_nth) simp_all
    then show ?thesis
      using rim_vertex_formula [of i sides x y radius] that n by (simp only:)
  qed
  have last: "\<bar>fst (?vs ! nat (sides + 1)) - fst (spec_rim_vertex x y radius sides 1)\<bar> \<le> ?tx
      \<and> \<bar>snd (?vs ! nat (sides + 1)) - snd (spec_rim_vertex x y radius sides 1)\<bar> \<le> ?ty"
    using nth [of "nat (sides + 1)"] n rim_closes [of sides x y radius] by simp
  have first: "\<bar>fst (?vs ! 1) - fst (spec_rim_vertex x y radius sides 1)\<bar> \<le> ?tx
      \<and> \<bar>snd (?vs ! 1) - snd (spec_rim_vertex x y radius sides 1)\<bar> \<le> ?ty"
    using nth [of 1] n by simp
  have "\<bar>fst (?vs ! nat (sides + 1)) - fst (?vs ! 1)\<bar> \<le> 2 * ?tx"
    using last first by (intro abs_close [of _ "fst (spec_rim_vertex x y radius sides 1)"]) blast+
  moreover have "\<bar>snd (?vs ! nat (sides + 1)) - snd (?vs ! 1)\<bar> \<le> 2 * ?ty"
    using last first by (intro abs_close [of _ "snd (spec_rim_vertex x y radius sides 1)"]) blast+
  ultimately show ?thesis
    using e nth by blast
qed

text \<open>The hypotheses of C2 hold for four sides.\<close>

theorem drawCircle_rim_formula_witness:
  "(1 :: int) \<le> 4 \<and> (4 :: int) \<le> 1073741821 \<and> \<bar>0 :: real\<bar> + \<bar>1\<bar> \<le> 2 ^ 127 \<and>
   (\<exists>vs. emitted (drawCircle 0 0 1 0xFF0000 4) gl_initial =
          Inr [\<lparr>dc_mode = GL_TRIANGLE_FAN, dc_vertices = vs, dc_color = spec_decode 0xFF0000\<rparr>]
      \<and> (\<forall>i. 1 \<le> i \<and> int i \<le> 4 + 1 \<longrightarrow>
            \<bar>fst (vs ! i) - fst (spec_rim_vertex 0 0 1 4 i)\<bar>
              \<le> \<bar>0\<bar> / 2 ^ 24 + \<bar>1\<bar> / 2 ^ 15 + 1 / 2 ^ 148
          \<and> \<bar>snd (vs ! i) - snd (spec_rim_vertex 0 0 1 4 i)\<bar>
              \<le> \<bar>0\<bar> / 2 ^ 24 + \<bar>1\<bar> / 2 ^ 15 + 1 / 2 ^ 148)
      \<and> \<bar>fst (vs ! nat (4 + 1)) - fst (vs ! 1)\<bar>
           \<le> 2 * (\<bar>0\<bar> / 2 ^ 24 + \<bar>1\<bar> / 2 ^ 15 + 1 / 2 ^ 148)
      \<and> \<bar>snd (vs ! nat (4 + 1)) - snd (vs ! 1)\<bar>
           \<le> 2 * (\<bar>0\<bar> / 2 ^ 24 + \<bar>1\<bar> / 2 ^ 15 + 1 / 2 ^ 148))"
  using drawCircle_rim_formula [of 4 0 1 0 "0xFF0000" gl_initial] by simp

text \<open>C2 as stated fails. For the side counts 2147483647 and 1073741822 (both at least 1)
  the call ends in a signed overflow and the fan has no rim vertex. And with the centre
  \<open>(10^8, 10^8)\<close>, radius 3 and 360 sides rim vertex 1 is the centre, not the point of
  the formula, whose first coordinate is \<open>10^8 + 3 * cos (2\<pi> / 360) > 10^8\<close>. And the
  fan does not close: for the unit circle at the origin with four sides the last rim
  vertex, at index 5, differs from the first, at index 1.\<close>

theorem drawCircle_rim_fails:
  "emitted (drawCircle 5 5 2 0x00FF00 2147483647) gl_initial = Inl SignedOverflow
   \<and> emitted (drawCircle 5 5 2 0x00FF00 1073741822) gl_initial = Inl SignedOverflow
   \<and> (\<exists>vs. emitted (drawCircle 100000000 100000000 3 0x00FF00 360) gl_initial =
          Inr [\<lparr>dc_mode = GL_TRIANGLE_FAN, dc_vertices = vs, dc_color = spec_decode 0x00FF00\<rparr>]
        \<and> vs ! 1 = (100000000, 100000000)
        \<and> vs ! 1 \<noteq> spec_rim_vertex 100000000 100000000 3 360 1)
   \<and> (\<exists>vs. emitted (drawCircle 0 0 1 0x00FF00 4) gl_initial =
          Inr [\<lparr>dc_mode = GL_TRIANGLE_FAN, dc_vertices = vs, dc_color = spec_decode 0x00FF00\<rparr>]
        \<and> vs ! nat (4 + 1) \<noteq> vs ! 1)"
proof (intro conjI)
  show "emitted (drawCircle 5 5 2 0x00FF00 2147483647) gl_initial = Inl SignedOverflow"
    by (simp add: drawCircle_emitted_any drawCircle_vertices_overflow)
  show "emitted (drawCircle 5 5 2 0x00FF00 1073741822) gl_initial = Inl SignedOverflow"
    by (simp add: drawCircle_emitted_any drawCircle_vertices_overflow)
  have "replicate 362 (100000000 :: real, 100000000 :: real) ! 1 = (100000000, 100000000)"
    by simp
  then show "\<exists>vs. emitted (drawCircle 100000000 100000000 3 0x00FF00 360) gl_initial =
          Inr [\<lparr>dc_mode = GL_TRIANGLE_FAN, dc_vertices = vs, dc_color = spec_decode 0x00FF00\<rparr>]
        \<and> vs ! 1 = (100000000, 100000000)
        \<and> vs ! 1 \<noteq> spec_rim_vertex 100000000 100000000 3 360 1"
    using spec_rim_vertex_far [symmetric] drawCircle_far [of "0x00FF00" gl_initial]
    by (intro exI [of _ "replicate 362 (100000000, 100000000)"]) (simp only: simp_thms)
  let ?vs = "(0, 0) # map (rim_vertex 0 0 1 4) [1..<nat (4 + 2)]"
  have e: "emitted (drawCircle 0 0 1 0x00FF00 4) gl_initial =
      Inr [\<lparr>dc_mode = GL_TRIANGLE_FAN, dc_vertices = ?vs, dc_color = spec_decode 0x00FF00\<rparr>]"
    by (rule drawCircle_emitted) simp_all
  have "?vs ! nat (4 + 1) = rim_vertex 0 0 1 4 (nat (4 + 1))"
    by (rule fan_nth) simp_all
  moreover have "?vs ! 1 = rim_vertex 0 0 1 4 1"
    by (rule fan_nth) simp_all
  moreover have "nat (4 + 1) = 5"
    by simp
  ultimately have "?vs ! nat (4 + 1) \<noteq> ?vs ! 1"
    using rim_4_open by (simp only: simp_thms)
  with e show "\<exists>vs. emitted (drawCircle 0 0 1 0x00FF00 4) gl_initial =
          Inr [\<lparr>dc_mode = GL_TRIANGLE_FAN, dc_vertices = vs, dc_color = spec_decode 0x00FF00\<rparr>]
        \<and> vs ! nat (4 + 1) \<noteq> vs ! 1"
    by blast
qed

text \<open>C8. With \<open>sides \<ge> 1\<close> no angle computation of \<^verbatim>\<open>drawCircle\<close> divides by zero.
  \<^verbatim>\<open>drawCircle\<close> does not reject or clamp a side count of 0: the call then reaches the
  division by \<open>sides\<close>, unguarded.\<close>

theorem drawCircle_division:
  "(1 \<le> sides \<longrightarrow> drawCircle x y radius color sides s \<noteq> Inl DivisionByZero)
   \<and> drawCircle x y radius color 0 s = Inl DivisionByZero"
proof -
  have "drawCircle x y radius color sides s \<noteq> Inl DivisionByZero" if "1 \<le> sides"
  proof (cases "sides \<le> 1073741821")
    case True
    then show ?thesis
      using that by (simp add: drawCircle_def drawCircle_vertices_eq Let_def)
  next
    case False
    then show ?thesis
      by (simp add: drawCircle_def drawCircle_vertices_overflow)
  qed
  then show ?thesis
    by (simp add: drawCircle_def drawCircle_vertices_zero)
qed

text \<open>The hypothesis of C8 holds for four sides.\<close>

theorem drawCircle_division_witness:
  "(1 :: int) \<le> 4 \<and> drawCircle 0 0 1 0xFF0000 4 gl_initial \<noteq> Inl DivisionByZero
   \<and> drawCircle 0 0 1 0xFF0000 0 gl_initial = Inl DivisionByZero"
  using drawCircle_division [of 4 0 0 1 "0xFF0000" gl_initial] by simp

section \<open>drawText: the points of a string\<close>

lemma block_points_mem:
  "p \<in> set (block_points xpos ypos sz) =
     (\<exists>i<nat sz. \<exists>j<nat sz. p = (xpos + real j, ypos + real i))"
  by (fastforce simp add: block_points_def image_iff)

lemma row_points_mem:
  "p \<in> set (row_points byte x ypos sz) =
     (\<exists>b<8. bit byte (7 - b) \<and> p \<in> set (block_points (x + real b * of_int sz) ypos sz))"
  by (fastforce simp add: row_points_def split: if_splits)

lemma glyph_points_mem:
  "p \<in> set (glyph_points g x y sz) =
     (\<exists>r<8. \<exists>b<8. bit (g ! r) (7 - b) \<and>
        (\<exists>i<nat sz. \<exists>j<nat sz.
           p = (x + real b * of_int sz + real j, y + 8 - real r * of_int sz + real i)))"
  by (simp add: glyph_points_def row_points_mem block_points_mem Bex_def)

lemma glyph_points_unit:
  "r < 8 \<Longrightarrow> b < 8 \<Longrightarrow> ((real b, 8 - real r) \<in> set (glyph_points g 0 0 1)) = bit (g ! r) (7 - b)"
  by (auto simp add: glyph_points_mem)

lemma glyph_points_unit_grid:
  "p \<in> set (glyph_points g 0 0 1) \<Longrightarrow> \<exists>r<8. \<exists>b<8. p = (real b, 8 - real r)"
  by (auto simp add: glyph_points_mem)

lemma text_points_single:
  "text_points h 0 [ch] x y sz =
     (if glyph_ok h ch then Inr (glyph_points (glyph_of h ch) x y sz) else Inl OutOfBounds)"
  by (simp add: int_add_def INT_MAX_def INT_MIN_def)

lemma text_points_counter:
  "0 \<le> c' \<Longrightarrow> c' \<le> c \<Longrightarrow> text_points h c str x y sz = Inr pts \<Longrightarrow>
   text_points h c' str x y sz = Inr pts"
proof (induction str arbitrary: c c' x pts)
  case Nil
  then show ?case by simp
next
  case (Cons ch str)
  from Cons.prems(3) have ok: "glyph_ok h ch"
    by (simp split: if_splits)
  from Cons.prems(3) ok have c: "int_add c 1 = Inr (c + 1)"
    by (simp add: int_add_def split: if_splits)
  then have c': "int_add c' 1 = Inr (c' + 1)"
    using Cons.prems(1,2) by (simp add: int_add_def INT_MIN_def split: if_splits)
  from Cons.prems(3) ok c obtain rest where
    rest: "text_points h (c + 1) str (x + 8 * of_int sz) y sz = Inr rest"
    and pts: "pts = glyph_points (glyph_of h ch) x y sz @ rest"
    by (auto split: sum.splits)
  have "text_points h (c' + 1) str (x + 8 * of_int sz) y sz = Inr rest"
    using Cons.prems(1,2) by (intro Cons.IH [OF _ _ rest]) simp_all
  then show ?case
    using ok c' pts by simp
qed

lemma text_points_cons:
  assumes "text_points h 0 (ch # str) x y sz = Inr pts"
  shows "\<exists>rest. text_points h 0 [ch] x y sz = Inr (glyph_points (glyph_of h ch) x y sz) \<and>
           text_points h 0 str (x + 8 * of_int sz) y sz = Inr rest \<and>
           pts = glyph_points (glyph_of h ch) x y sz @ rest"
proof -
  from assms have ok: "glyph_ok h ch"
    by (simp split: if_splits)
  have c: "int_add 0 1 = Inr 1"
    by (simp add: int_add_def INT_MAX_def INT_MIN_def)
  from assms ok c obtain rest where
    rest: "text_points h 1 str (x + 8 * of_int sz) y sz = Inr rest"
    and pts: "pts = glyph_points (glyph_of h ch) x y sz @ rest"
    by (auto split: sum.splits)
  have "text_points h 0 str (x + 8 * of_int sz) y sz = Inr rest"
    by (rule text_points_counter [OF _ _ rest]) simp_all
  moreover have "text_points h 0 [ch] x y sz = Inr (glyph_points (glyph_of h ch) x y sz)"
    using ok by (simp only: text_points_single if_True)
  ultimately show ?thesis
    using pts by blast
qed

lemma text_points_no_oob:
  "list_all (glyph_ok h) str \<Longrightarrow> text_points h c str x y sz \<noteq> Inl OutOfBounds"
proof (induction str arbitrary: c x)
  case Nil
  then show ?case by simp
next
  case (Cons ch str)
  then show ?case
    by (auto simp add: int_add_def split: sum.splits if_splits)
qed

lemma text_points_total:
  "list_all (glyph_ok h) str \<Longrightarrow> 0 \<le> c \<Longrightarrow> c + int (length str) \<le> INT_MAX \<Longrightarrow>
   \<exists>pts. text_points h c str x y sz = Inr pts"
proof (induction str arbitrary: c x)
  case Nil
  then show ?case by simp
next
  case (Cons ch str)
  have c: "int_add c 1 = Inr (c + 1)"
    using Cons.prems by (simp add: int_add_def INT_MIN_def)
  obtain rest where "text_points h (c + 1) str (x + 8 * of_int sz) y sz = Inr rest"
    using Cons.IH [of "c + 1" "x + 8 * of_int sz"] Cons.prems by auto
  then show ?case
    using Cons.prems c by simp
qed

lemma emitted_Inl: "(emitted f s = Inl e) = (f s = Inl e)"
  by (simp add: emitted_def split: sum.splits)

lemma emitted_Inr: "(\<exists>calls. emitted f s = Inr calls) = (\<exists>s'. f s = Inr s')"
  by (simp add: emitted_def split: sum.splits)

lemma drawText_error: "(drawText h x y str sz color s = Inl e) = (text_points h 0 str x y sz = Inl e)"
  unfolding emitted_Inl [symmetric] drawText_emitted
  by (simp split: sum.splits)

lemma table_glyph_ok:
  assumes "length (CHARACTERS h) = 95" and "list_all (\<lambda>g. length g = 8) (CHARACTERS h)"
    and "32 \<le> char_code ch" and "char_code ch \<le> 126"
  shows "glyph_ok h ch"
proof -
  have i: "nat (char_code ch - 32) < length (CHARACTERS h)"
    using assms by simp
  then have "length (CHARACTERS h ! nat (char_code ch - 32)) = 8"
    using assms(2) by (simp add: list_all_length)
  then show ?thesis
    using assms by (simp add: glyph_ok_def)
qed

lemma low_char_not_ok: "\<not> glyph_ok h (CHR 0x1F)"
  by (simp add: glyph_ok_def char_code_def)

lemma del_char_not_ok: "length (CHARACTERS h) = 95 \<Longrightarrow> \<not> glyph_ok h (CHR 0x7F)"
  by (simp add: glyph_ok_def char_code_def)

lemma sample_ok: "glyph_ok sample_h CHR ''A''" "glyph_ok sample_h CHR ''B''"
  by (simp_all add: glyph_ok_def char_code_def sample_h_def)

lemma sample_glyph: "glyph_of sample_h CHR ''A'' = [0x18, 0x24, 0x42, 0x7E, 0x42, 0x42, 0x42, 0x00]"
  by (simp add: glyph_of_def char_code_def sample_h_def)

lemma sample_table:
  "length (CHARACTERS sample_h) = 95" "list_all (\<lambda>g. length g = 8) (CHARACTERS sample_h)"
proof -
  show "length (CHARACTERS sample_h) = 95"
    by (simp add: sample_h_def)
  have "set ((replicate 95 (replicate 8 (0 :: 8 word)))[33 := [0x18, 0x24, 0x42, 0x7E, 0x42, 0x42, 0x42, 0x00]])
      \<subseteq> insert [0x18, 0x24, 0x42, 0x7E, 0x42, 0x42, 0x42, 0x00] (set (replicate 95 (replicate 8 0)))"
    by (rule set_update_subset_insert)
  then show "list_all (\<lambda>g. length g = 8) (CHARACTERS sample_h)"
    by (auto simp add: sample_h_def list_all_iff)
qed

lemma sample_points: "(3, 8) \<in> set (glyph_points (glyph_of sample_h CHR ''A'') 0 0 1)"
  using glyph_points_unit [of 0 3 "glyph_of sample_h CHR ''A''"]
  by (simp add: sample_glyph)

lemma sample_colors: "spec_decode (drawPoint_color sample_h) \<noteq> spec_decode 0xFF0000"
  by (simp add: spec_decode_def sample_h_def)

text \<open>C4, as amended. A single character drawn at size 1 from (0, 0) gives a point at
  column \<open>b\<close>, row \<open>r\<close> (the pixel \<open>(b, 8 - r)\<close>) if and only if bit \<open>7 - b\<close> of row \<open>r\<close> of
  its glyph is 1, and no point elsewhere. For integer coordinates in the range where
  single precision is exact (\<open>\<bar>x\<bar> + (8 * length + 1) * \<bar>size\<bar>\<close> and
  \<open>\<bar>y\<bar> + 8 + 9 * \<bar>size\<bar>\<close> at most \<open>2^24\<close>) the cursor after a character, computed in
  single precision, is exactly \<open>x + 8 * size\<close>, and what a string draws is what its first
  character draws followed by what the rest draws from \<open>x + 8 * size\<close>.\<close>

theorem drawText_single_glyph:
  "(glyph_ok h ch \<longrightarrow>
      (\<exists>pts. emitted (drawText h 0 0 [ch] 1 color) s = Inr (map (text_call h) pts)
         \<and> (\<forall>r<8. \<forall>b<8. ((real b, 8 - real r) \<in> set pts) = bit (glyph_of h ch ! r) (7 - b))
         \<and> (\<forall>p\<in>set pts. \<exists>r<8. \<exists>b<8. p = (real b, 8 - real r))))
   \<and> (\<bar>xi\<bar> + (8 * int (length (ch # str)) + 1) * \<bar>sz\<bar> \<le> 2 ^ 24
        \<and> \<bar>yi\<bar> + 8 + 9 * \<bar>sz\<bar> \<le> 2 ^ 24
        \<and> emitted (drawText h (of_int xi) (of_int yi) (ch # str) sz color) s = Inr calls \<longrightarrow>
      drawText_xpos_f32 (of_int xi) sz 8 = of_int xi + 8 * of_int sz
      \<and> (\<exists>first rest. emitted (drawText h (of_int xi) (of_int yi) [ch] sz color) s = Inr first
         \<and> emitted (drawText h (of_int xi + 8 * of_int sz) (of_int yi) str sz color) s = Inr rest
         \<and> calls = first @ rest))"
proof (intro conjI impI)
  assume ok: "glyph_ok h ch"
  let ?pts = "glyph_points (glyph_of h ch) 0 0 1"
  have "emitted (drawText h 0 0 [ch] 1 color) s = Inr (map (text_call h) ?pts)"
    using ok by (simp only: drawText_emitted text_points_single if_True sum.case)
  moreover have "\<forall>r<8. \<forall>b<8. ((real b, 8 - real r) \<in> set ?pts) = bit (glyph_of h ch ! r) (7 - b)"
    by (simp add: glyph_points_unit)
  moreover have "\<forall>p\<in>set ?pts. \<exists>r<8. \<exists>b<8. p = (real b, 8 - real r)"
    using glyph_points_unit_grid by blast
  ultimately show "\<exists>pts. emitted (drawText h 0 0 [ch] 1 color) s = Inr (map (text_call h) pts)
         \<and> (\<forall>r<8. \<forall>b<8. ((real b, 8 - real r) \<in> set pts) = bit (glyph_of h ch ! r) (7 - b))
         \<and> (\<forall>p\<in>set pts. \<exists>r<8. \<exists>b<8. p = (real b, 8 - real r))"
    by blast
next
  assume a: "\<bar>xi\<bar> + (8 * int (length (ch # str)) + 1) * \<bar>sz\<bar> \<le> 2 ^ 24
        \<and> \<bar>yi\<bar> + 8 + 9 * \<bar>sz\<bar> \<le> 2 ^ 24
        \<and> emitted (drawText h (of_int xi) (of_int yi) (ch # str) sz color) s = Inr calls"
  have "8 * \<bar>sz\<bar> \<le> (8 * int (length (ch # str)) + 1) * \<bar>sz\<bar>"
    by (intro mult_right_mono) simp_all
  with a have "\<bar>xi\<bar> + int 8 * \<bar>sz\<bar> \<le> 2 ^ 24"
    by simp
  then have "drawText_xpos_f32 (of_int xi) sz 8 = of_int xi + real 8 * of_int sz"
    by (rule xpos_f32_exact)
  then show "drawText_xpos_f32 (of_int xi) sz 8 = of_int xi + 8 * of_int sz"
    by simp
next
  assume a: "\<bar>xi\<bar> + (8 * int (length (ch # str)) + 1) * \<bar>sz\<bar> \<le> 2 ^ 24
        \<and> \<bar>yi\<bar> + 8 + 9 * \<bar>sz\<bar> \<le> 2 ^ 24
        \<and> emitted (drawText h (of_int xi) (of_int yi) (ch # str) sz color) s = Inr calls"
  then obtain pts where pts: "text_points h 0 (ch # str) (of_int xi) (of_int yi) sz = Inr pts"
    and calls: "calls = map (text_call h) pts"
    unfolding drawText_emitted by (auto split: sum.splits)
  from text_points_cons [OF pts] obtain rest where
    "text_points h 0 [ch] (of_int xi) (of_int yi) sz
       = Inr (glyph_points (glyph_of h ch) (of_int xi) (of_int yi) sz)"
    "text_points h 0 str (of_int xi + 8 * of_int sz) (of_int yi) sz = Inr rest"
    "pts = glyph_points (glyph_of h ch) (of_int xi) (of_int yi) sz @ rest"
    by blast
  then show "\<exists>first rest. emitted (drawText h (of_int xi) (of_int yi) [ch] sz color) s = Inr first
         \<and> emitted (drawText h (of_int xi + 8 * of_int sz) (of_int yi) str sz color) s = Inr rest
         \<and> calls = first @ rest"
    unfolding drawText_emitted calls by simp
qed

text \<open>The hypotheses of C4 hold for the sample header and the strings \<open>A\<close> and \<open>AA\<close>.\<close>

theorem drawText_single_glyph_witness:
  "glyph_ok sample_h CHR ''A''
   \<and> (\<exists>pts. emitted (drawText sample_h 0 0 ''A'' 1 0xFF0000) gl_initial = Inr (map (text_call sample_h) pts)
         \<and> (\<forall>r<8. \<forall>b<8. ((real b, 8 - real r) \<in> set pts) = bit (glyph_of sample_h CHR ''A'' ! r) (7 - b))
         \<and> (\<forall>p\<in>set pts. \<exists>r<8. \<exists>b<8. p = (real b, 8 - real r)))
   \<and> \<bar>0 :: int\<bar> + (8 * int (length ''AA'') + 1) * \<bar>2\<bar> \<le> 2 ^ 24
   \<and> \<bar>0 :: int\<bar> + 8 + 9 * \<bar>2\<bar> \<le> 2 ^ 24
   \<and> emitted (drawText sample_h 0 0 ''AA'' 2 0xFF0000) gl_initial =
       Inr (map (text_call sample_h)
         (glyph_points (glyph_of sample_h CHR ''A'') 0 0 2 @
          glyph_points (glyph_of sample_h CHR ''A'') 16 0 2))
   \<and> drawText_xpos_f32 0 2 8 = 16
   \<and> (\<exists>first rest. emitted (drawText sample_h 0 0 ''A'' 2 0xFF0000) gl_initial = Inr first
         \<and> emitted (drawText sample_h 16 0 ''A'' 2 0xFF0000) gl_initial = Inr rest
         \<and> map (text_call sample_h)
             (glyph_points (glyph_of sample_h CHR ''A'') 0 0 2 @
              glyph_points (glyph_of sample_h CHR ''A'') 16 0 2) = first @ rest)"
proof -
  have e: "emitted (drawText sample_h 0 0 ''AA'' 2 0xFF0000) gl_initial =
       Inr (map (text_call sample_h)
         (glyph_points (glyph_of sample_h CHR ''A'') 0 0 2 @
          glyph_points (glyph_of sample_h CHR ''A'') 16 0 2))"
    by (simp add: drawText_emitted sample_ok int_add_def INT_MAX_def INT_MIN_def)
  show ?thesis
    using drawText_single_glyph [where h = sample_h and ch = "CHR ''A''" and color = "0xFF0000"
        and s = gl_initial and xi = 0 and yi = 0 and str = "''A''" and sz = 2
        and calls = "map (text_call sample_h)
         (glyph_points (glyph_of sample_h CHR ''A'') 0 0 2 @
          glyph_points (glyph_of sample_h CHR ''A'') 16 0 2)"]
      sample_ok(1) e
    by simp
qed

text \<open>C4 as stated fails: the cursor is a \<^verbatim>\<open>float\<close>. From \<open>x = 2^24 = 16777216\<close> at size 1
  each \<^verbatim>\<open>xpos += size\<close> rounds \<open>16777217\<close> back to \<open>16777216\<close>, and the cursor after a
  character has not advanced at all; from \<open>x = 16777212\<close> it advances by 4, not 8.\<close>

theorem drawText_cursor_stalls:
  "drawText_xpos_f32 16777216 1 8 = 16777216
   \<and> drawText_xpos_f32 16777216 1 8 \<noteq> 16777216 + 8 * of_int 1
   \<and> drawText_xpos_f32 16777212 1 8 = 16777216
   \<and> drawText_xpos_f32 16777212 1 8 \<noteq> 16777212 + 8 * of_int 1"
  by (simp only: xpos_f32_stall xpos_f32_short) simp

text \<open>C10. \<^verbatim>\<open>drawText\<close> sets the colour to its \<open>color\<close> argument at entry (an empty
  string leaves exactly that state), but every point it draws is drawn by
  \<^verbatim>\<open>drawPoint(xs, ys, 1)\<close>, which sets the default colour of \<^verbatim>\<open>drawPoint\<close> first: the
  colour of every point is the default colour, and differs from the colour of the
  argument whenever the two differ.\<close>

theorem drawText_points_default_color:
  "drawText h x y [] sz color s = Inr (setColor color s)
   \<and> gl_color (setColor color s) = spec_decode color
   \<and> (emitted (drawText h x y str sz color) s = Inr calls \<longrightarrow>
        list_all (\<lambda>c. dc_mode c = GL_POINTS \<and> dc_color c = spec_decode (drawPoint_color h)) calls
        \<and> (spec_decode (drawPoint_color h) \<noteq> spec_decode color \<longrightarrow>
             list_all (\<lambda>c. dc_color c \<noteq> spec_decode color) calls))"
proof (intro conjI impI)
  show "drawText h x y [] sz color s = Inr (setColor color s)"
    by (simp add: drawText_def)
  show "gl_color (setColor color s) = spec_decode color"
    by (simp add: setColor_eq)
next
  assume "emitted (drawText h x y str sz color) s = Inr calls"
  then obtain pts where calls: "calls = map (text_call h) pts"
    unfolding drawText_emitted by (auto split: sum.splits)
  show "list_all (\<lambda>c. dc_mode c = GL_POINTS \<and> dc_color c = spec_decode (drawPoint_color h)) calls"
    unfolding calls by (simp add: list_all_iff point_call_def)
  assume "spec_decode (drawPoint_color h) \<noteq> spec_decode color"
  then show "list_all (\<lambda>c. dc_color c \<noteq> spec_decode color) calls"
    unfolding calls by (simp add: list_all_iff point_call_def)
qed

text \<open>The hypotheses of C10 hold for the sample header: \<open>A\<close> in red is drawn in the
  default white.\<close>

theorem drawText_points_default_color_witness:
  "emitted (drawText sample_h 0 0 ''A'' 1 0xFF0000) gl_initial =
       Inr (map (text_call sample_h) (glyph_points (glyph_of sample_h CHR ''A'') 0 0 1))
   \<and> glyph_points (glyph_of sample_h CHR ''A'') 0 0 1 \<noteq> []
   \<and> spec_decode (drawPoint_color sample_h) \<noteq> spec_decode 0xFF0000
   \<and> list_all (\<lambda>c. dc_mode c = GL_POINTS \<and> dc_color c = spec_decode (drawPoint_color sample_h))
        (map (text_call sample_h) (glyph_points (glyph_of sample_h CHR ''A'') 0 0 1))
   \<and> list_all (\<lambda>c. dc_color c \<noteq> spec_decode 0xFF0000)
        (map (text_call sample_h) (glyph_points (glyph_of sample_h CHR ''A'') 0 0 1))"
proof -
  have e: "emitted (drawText sample_h 0 0 ''A'' 1 0xFF0000) gl_initial =
       Inr (map (text_call sample_h) (glyph_points (glyph_of sample_h CHR ''A'') 0 0 1))"
    by (simp add: drawText_emitted sample_ok int_add_def INT_MAX_def INT_MIN_def)
  have ne: "glyph_points (glyph_of sample_h CHR ''A'') 0 0 1 \<noteq> []"
    using sample_points by auto
  show ?thesis
    using drawText_points_default_color [of sample_h 0 0 1 "0xFF0000" gl_initial "''A''"
        "map (text_call sample_h) (glyph_points (glyph_of sample_h CHR ''A'') 0 0 1)"]
      e ne sample_colors
    by simp
qed

text \<open>C7. With a table of 95 glyphs of 8 rows and a string whose character codes are
  between 32 and 126, every index \<open>c - 32\<close> is between 0 and 94 and no access of
  \<^verbatim>\<open>drawText\<close> to the table is out of bounds. \<^verbatim>\<open>drawText\<close> checks no range: for the
  character code 31 the access is out of bounds, and for 127 it is with that table.\<close>

theorem drawText_glyph_index:
  "(length (CHARACTERS h) = 95 \<and> list_all (\<lambda>g. length g = 8) (CHARACTERS h)
      \<and> list_all (\<lambda>ch. 32 \<le> char_code ch \<and> char_code ch \<le> 126) str \<longrightarrow>
        list_all (\<lambda>ch. 0 \<le> char_code ch - 32 \<and> char_code ch - 32 \<le> 94) str
        \<and> list_all (glyph_ok h) str
        \<and> drawText h x y str sz color s \<noteq> Inl OutOfBounds
        \<and> (int (length str) \<le> INT_MAX \<longrightarrow> (\<exists>s'. drawText h x y str sz color s = Inr s')))
   \<and> drawText h x y [CHR 0x1F] sz color s = Inl OutOfBounds
   \<and> (length (CHARACTERS h) = 95 \<longrightarrow> drawText h x y [CHR 0x7F] sz color s = Inl OutOfBounds)"
proof (intro conjI impI)
  assume a: "length (CHARACTERS h) = 95 \<and> list_all (\<lambda>g. length g = 8) (CHARACTERS h)
      \<and> list_all (\<lambda>ch. 32 \<le> char_code ch \<and> char_code ch \<le> 126) str"
  then show "list_all (\<lambda>ch. 0 \<le> char_code ch - 32 \<and> char_code ch - 32 \<le> 94) str"
    by (auto simp add: list_all_iff)
  show ok: "list_all (glyph_ok h) str"
    using a by (auto simp add: list_all_iff [of _ str] intro: table_glyph_ok)
  then show "drawText h x y str sz color s \<noteq> Inl OutOfBounds"
    by (simp add: drawText_error text_points_no_oob)
  assume "int (length str) \<le> INT_MAX"
  then obtain pts where "text_points h 0 str x y sz = Inr pts"
    using text_points_total [OF ok, of 0 x y sz] by auto
  then have "\<exists>calls. emitted (drawText h x y str sz color) s = Inr calls"
    by (simp add: drawText_emitted)
  then show "\<exists>s'. drawText h x y str sz color s = Inr s'"
    by (simp only: emitted_Inr)
next
  show "drawText h x y [CHR 0x1F] sz color s = Inl OutOfBounds"
    by (simp add: drawText_error low_char_not_ok)
next
  assume "length (CHARACTERS h) = 95"
  then show "drawText h x y [CHR 0x7F] sz color s = Inl OutOfBounds"
    by (simp add: drawText_error del_char_not_ok)
qed

text \<open>The hypotheses of C7 hold for the sample header and a string with the codes 65,
  126 and 32.\<close>

theorem drawText_glyph_index_witness:
  "length (CHARACTERS sample_h) = 95 \<and> list_all (\<lambda>g. length g = 8) (CHARACTERS sample_h)
   \<and> list_all (\<lambda>ch. 32 \<le> char_code ch \<and> char_code ch \<le> 126) ''A~ ''
   \<and> list_all (\<lambda>ch. 0 \<le> char_code ch - 32 \<and> char_code ch - 32 \<le> 94) ''A~ ''
   \<and> list_all (glyph_ok sample_h) ''A~ ''
   \<and> drawText sample_h 0 0 ''A~ '' 1 0xFF0000 gl_initial \<noteq> Inl OutOfBounds
   \<and> int (length ''A~ '') \<le> INT_MAX
   \<and> (\<exists>s'. drawText sample_h 0 0 ''A~ '' 1 0xFF0000 gl_initial = Inr s')
   \<and> drawText sample_h 0 0 [CHR 0x1F] 1 0xFF0000 gl_initial = Inl OutOfBounds
   \<and> drawText sample_h 0 0 [CHR 0x7F] 1 0xFF0000 gl_initial = Inl OutOfBounds"
proof -
  have c: "list_all (\<lambda>ch. 32 \<le> char_code ch \<and> char_code ch \<le> 126) ''A~ ''"
    by (simp add: char_code_def)
  have l: "int (length ''A~ '') \<le> INT_MAX"
    by (simp add: INT_MAX_def)
  show ?thesis
    using drawText_glyph_index [of sample_h "''A~ ''" 0 0 1 "0xFF0000" gl_initial] sample_table c l
    by simp
qed

text \<open>C3, what the code does. \<^verbatim>\<open>ypos\<close> starts at \<open>y + 8\<close> for every size: the block of a
  set bit in row \<open>r\<close>, column \<open>b\<close> has its corner at \<open>(x + b * size, y + 8 - r * size)\<close>.
  From size 2 on no point is drawn at or above \<open>y + 8 * size\<close>, where C3 puts row 0.\<close>

theorem drawText_block_rows:
  "glyph_ok h ch \<Longrightarrow> 2 \<le> sz \<Longrightarrow>
   \<exists>pts. emitted (drawText h x y [ch] sz color) s = Inr (map (text_call h) pts)
     \<and> (\<forall>p. (p \<in> set pts) =
          (\<exists>r<8. \<exists>b<8. bit (glyph_of h ch ! r) (7 - b) \<and>
             p \<in> set (block_points (x + real b * of_int sz) (y + 8 - real r * of_int sz) sz)))
     \<and> (\<forall>p\<in>set pts. snd p < y + 8 * of_int sz)"
proof -
  assume ok: "glyph_ok h ch" and sz: "2 \<le> sz"
  let ?pts = "glyph_points (glyph_of h ch) x y sz"
  have "emitted (drawText h x y [ch] sz color) s = Inr (map (text_call h) ?pts)"
    using ok by (simp only: drawText_emitted text_points_single if_True sum.case)
  moreover have "\<forall>p. (p \<in> set ?pts) =
          (\<exists>r<8. \<exists>b<8. bit (glyph_of h ch ! r) (7 - b) \<and>
             p \<in> set (block_points (x + real b * of_int sz) (y + 8 - real r * of_int sz) sz))"
    by (simp add: glyph_points_mem block_points_mem)
  moreover have "\<forall>p\<in>set ?pts. snd p < y + 8 * of_int sz"
  proof
    fix p
    assume "p \<in> set ?pts"
    then have "\<exists>r i. i < nat sz \<and> snd p = y + 8 - real r * of_int sz + real i"
      unfolding glyph_points_mem by fastforce
    then obtain r i where i: "i < nat sz" and p: "snd p = y + 8 - real r * of_int sz + real i"
      by blast
    have "real i < of_int sz"
      using i by linarith
    moreover have "0 \<le> real r * of_int sz"
      using sz by simp
    moreover have "(8 :: real) + of_int sz \<le> 8 * of_int sz"
      using sz by simp
    ultimately show "snd p < y + 8 * of_int sz"
      unfolding p by linarith
  qed
  ultimately show ?thesis
    by blast
qed

text \<open>The hypotheses hold for the sample header, the character \<open>A\<close> and size 2: the
  block of the set bit in row 0, column 3 starts at (6, 8), and nothing is drawn at
  (6, 16).\<close>

theorem drawText_block_rows_witness:
  "glyph_ok sample_h CHR ''A'' \<and> (2 :: int) \<le> 2
   \<and> (\<exists>pts. emitted (drawText sample_h 0 0 ''A'' 2 0xFFFFFF) gl_initial = Inr (map (text_call sample_h) pts)
     \<and> (6, 8) \<in> set pts \<and> (6, 16) \<notin> set pts)"
proof -
  obtain pts where e: "emitted (drawText sample_h 0 0 ''A'' 2 0xFFFFFF) gl_initial =
        Inr (map (text_call sample_h) pts)"
    and m: "\<forall>p. (p \<in> set pts) =
          (\<exists>r<8. \<exists>b<8. bit (glyph_of sample_h CHR ''A'' ! r) (7 - b) \<and>
             p \<in> set (block_points (0 + real b * of_int 2) (0 + 8 - real r * of_int 2) 2))"
    and top: "\<forall>p\<in>set pts. snd p < 0 + 8 * of_int 2"
    using drawText_block_rows [of sample_h "CHR ''A''" 2 0 0 "0xFFFFFF" gl_initial] sample_ok(1)
    by auto
  have "bit (glyph_of sample_h CHR ''A'' ! 0) (7 - 3)"
    by (simp add: sample_glyph)
  moreover have "(6, 8) \<in> set (block_points (0 + real 3 * of_int 2) (0 + 8 - real 0 * of_int 2) 2)"
    by (simp add: block_points_mem)
  ultimately have "\<exists>r<8. \<exists>b<8. bit (glyph_of sample_h CHR ''A'' ! r) (7 - b) \<and>
             (6, 8) \<in> set (block_points (0 + real b * of_int 2) (0 + 8 - real r * of_int 2) 2)"
    by (intro exI [of _ "0 :: nat"] exI [of _ "3 :: nat"] conjI) simp_all
  then have "(6, 8) \<in> set pts"
    using m by blast
  moreover have "(6, 16) \<notin> set pts"
    using top by auto
  ultimately show ?thesis
    using e sample_ok(1) by auto
qed

section \<open>Determinism\<close>

lemma drawQuad_emitted:
  "emitted (\<lambda>s. Inr (drawQuad x y width height color s)) s =
     Inr [\<lparr>dc_mode = GL_QUADS,
           dc_vertices = [(x, y), (x + width, y), (x + width, y + height), (x, y + height)],
           dc_color = spec_decode color\<rparr>]"
  by (simp add: emitted_def drawQuad_def Let_def setColor_eq glDrawArrays_def
      glEnableClientState_VERTEX_ARRAY_def glDisableClientState_VERTEX_ARRAY_def
      glVertexPointer_2f_def)

lemma drawPoint_emitted:
  "emitted (\<lambda>s. Inr (drawPoint x y psize color smooth s)) s =
     Inr [point_call (spec_decode color) (x, y)]"
  by (simp add: emitted_def drawPoint_drawn)

lemma drawLine_emitted:
  "emitted (\<lambda>s. Inr (drawLine x1 y1 x2 y2 width color smooth s)) s =
     Inr [\<lparr>dc_mode = GL_LINES, dc_vertices = [(x1, y1), (x2, y2)],
           dc_color = spec_decode color\<rparr>]"
  by (simp add: emitted_def drawLine_def Let_def setColor_eq glPushAttrib_LINE_BIT_def
      glPopAttrib_def glEnable_LINE_SMOOTH_def glDisable_LINE_SMOOTH_def glLineWidth_def
      glEnableClientState_VERTEX_ARRAY_def glDisableClientState_VERTEX_ARRAY_def
      glVertexPointer_2f_def glDrawArrays_def)

text \<open>C9. What \<^verbatim>\<open>drawCircle\<close> and \<^verbatim>\<open>drawText\<close> draw (or the error they end in) is
  the same from every pair of OpenGL states, in particular from the state before a
  first call and the state that call leaves: a second call with identical arguments draws
  the identical sequence of vertices and points. The same holds of \<^verbatim>\<open>drawQuad\<close>,
  \<^verbatim>\<open>drawPoint\<close> and \<^verbatim>\<open>drawLine\<close>.\<close>

theorem draw_deterministic:
  "emitted (drawCircle x y radius color sides) s1 = emitted (drawCircle x y radius color sides) s2
   \<and> emitted (drawText h x y str sz color) s1 = emitted (drawText h x y str sz color) s2
   \<and> emitted (\<lambda>s. Inr (drawQuad x y width height color s)) s1 =
       emitted (\<lambda>s. Inr (drawQuad x y width height color s)) s2
   \<and> emitted (\<lambda>s. Inr (drawPoint x y psize color smooth s)) s1 =
       emitted (\<lambda>s. Inr (drawPoint x y psize color smooth s)) s2
   \<and> emitted (\<lambda>s. Inr (drawLine x y x2 y2 width color smooth s)) s1 =
       emitted (\<lambda>s. Inr (drawLine x y x2 y2 width color smooth s)) s2"
proof -
  have circle: "emitted (drawCircle x y radius color sides) s1 =
      emitted (drawCircle x y radius color sides) s2"
    by (simp only: drawCircle_emitted_any)
  have string: "emitted (drawText h x y str sz color) s1 = emitted (drawText h x y str sz color) s2"
    by (simp only: drawText_emitted)
  have quad: "emitted (\<lambda>s. Inr (drawQuad x y width height color s)) s1 =
      emitted (\<lambda>s. Inr (drawQuad x y width height color s)) s2"
    by (simp only: drawQuad_emitted)
  have point: "emitted (\<lambda>s. Inr (drawPoint x y psize color smooth s)) s1 =
      emitted (\<lambda>s. Inr (drawPoint x y psize color smooth s)) s2"
    by (simp only: drawPoint_emitted)
  have line: "emitted (\<lambda>s. Inr (drawLine x y x2 y2 width color smooth s)) s1 =
      emitted (\<lambda>s. Inr (drawLine x y x2 y2 width color smooth s)) s2"
    by (simp only: drawLine_emitted)
  from circle string quad point line show ?thesis
    by blast
qed

end
